theory Spec2Isabelle
  imports Complex_Main "HOL-Library.AList" "HOL-Library.Multiset"
    "HOL-Library.List_Lexorder" "HOL-Library.Char_ord"
begin

text \<open>
  A model of the Comedy Bang Bang Universe Explorer: the pure functions of the script
  (\<open>isLiveEpisode\<close>, \<open>getEpisodeBaseColor\<close>, \<open>loadData\<close>) and, of the component \<open>App\<close>, the
  state cells, the click and hover handlers, the memoised entity list, the cell sizing and
  the colour of a timeline cell. The repository holds two variants of the script; they
  agree on everything modelled here, except that only the later one has the colour modes
  and the maxima of guests, characters and characters per guest, which are modelled from it.
  Strings are lists of characters; the two regular expressions and \<open>includes\<close> look at
  single characters, and only ASCII characters are word characters, digits or letters of
  \<open>live\<close>.
\<close>

section \<open>Host primitives\<close>

text \<open>
  The program calls a handful of primitives of its JavaScript host whose results depend on
  the engine, the time zone or the locale. They are taken as a parameter \<open>h\<close>:
  \<^item> \<open>newDate s\<close> is the time value (milliseconds since the epoch, an integer) of
    \<^verbatim>\<open>new Date(s)\<close>, and \<open>None\<close> when the date is invalid (\<^verbatim>\<open>getTime()\<close> is NaN);
  \<^item> \<open>getFullYear t\<close> is the local calendar year of the time value \<open>t\<close>;
  \<^item> \<open>yearStart y\<close> is the time value of \<^verbatim>\<open>new Date(y, 0, 1)\<close>;
  \<^item> \<open>toLowerCase\<close> and \<open>localeCompare\<close> are the methods of \<^verbatim>\<open>String.prototype\<close>;
  \<^item> \<open>objectPrototypeHas key\<close> tells whether every plain object inherits a member named
    \<open>key\<close> (\<^verbatim>\<open>constructor\<close>, \<^verbatim>\<open>toString\<close>, ...): reading such a key from an object
    that has no property of its own with that name yields the inherited member.
\<close>

record host =
  newDate :: "string \<Rightarrow> int option"
  getFullYear :: "int \<Rightarrow> int"
  yearStart :: "int \<Rightarrow> int"
  toLowerCase :: "string \<Rightarrow> string"
  localeCompare :: "string \<Rightarrow> string \<Rightarrow> int"
  objectPrototypeHas :: "string \<Rightarrow> bool"

text \<open>
  \<^verbatim>\<open>Array.prototype.sort(cmp)\<close> is stable, and with a consistent comparator its result is
  determined: the model is the stable insertion sort, where an element stays in front of
  the later elements it does not compare greater than.
\<close>

fun js_insert :: "('a \<Rightarrow> 'a \<Rightarrow> int) \<Rightarrow> 'a \<Rightarrow> 'a list \<Rightarrow> 'a list" where
  "js_insert cmp x [] = [x]"
| "js_insert cmp x (y # ys) = (if cmp x y \<le> 0 then x # y # ys else y # js_insert cmp x ys)"

fun js_sort :: "('a \<Rightarrow> 'a \<Rightarrow> int) \<Rightarrow> 'a list \<Rightarrow> 'a list" where
  "js_sort cmp [] = []"
| "js_sort cmp (x # xs) = js_insert cmp x (js_sort cmp xs)"

text \<open>JavaScript numbers that may leave the finite range: the quotient of two lengths.
  Finite values are exact rationals; the sign of zero is not modelled.\<close>

datatype jsnum = Finite rat | PosInf | NegInf | NaN

fun js_div :: "jsnum \<Rightarrow> jsnum \<Rightarrow> jsnum" where
  "js_div NaN _ = NaN"
| "js_div _ NaN = NaN"
| "js_div (Finite a) (Finite b) =
     (if b = 0 then (if a = 0 then NaN else if 0 < a then PosInf else NegInf)
      else Finite (a / b))"
| "js_div (Finite a) PosInf = Finite 0"
| "js_div (Finite a) NegInf = Finite 0"
| "js_div PosInf (Finite b) = (if 0 \<le> b then PosInf else NegInf)"
| "js_div NegInf (Finite b) = (if 0 \<le> b then NegInf else PosInf)"
| "js_div PosInf PosInf = NaN"
| "js_div PosInf NegInf = NaN"
| "js_div NegInf PosInf = NaN"
| "js_div NegInf NegInf = NaN"

fun js_mul :: "jsnum \<Rightarrow> jsnum \<Rightarrow> jsnum" where
  "js_mul NaN _ = NaN"
| "js_mul _ NaN = NaN"
| "js_mul (Finite a) (Finite b) = Finite (a * b)"
| "js_mul (Finite a) PosInf = (if a = 0 then NaN else if 0 < a then PosInf else NegInf)"
| "js_mul (Finite a) NegInf = (if a = 0 then NaN else if 0 < a then NegInf else PosInf)"
| "js_mul PosInf (Finite b) = (if b = 0 then NaN else if 0 < b then PosInf else NegInf)"
| "js_mul NegInf (Finite b) = (if b = 0 then NaN else if 0 < b then NegInf else PosInf)"
| "js_mul PosInf PosInf = PosInf"
| "js_mul PosInf NegInf = NegInf"
| "js_mul NegInf PosInf = NegInf"
| "js_mul NegInf NegInf = PosInf"

fun js_sub :: "jsnum \<Rightarrow> jsnum \<Rightarrow> jsnum" where
  "js_sub NaN _ = NaN"
| "js_sub _ NaN = NaN"
| "js_sub (Finite a) (Finite b) = Finite (a - b)"
| "js_sub (Finite a) PosInf = NegInf"
| "js_sub (Finite a) NegInf = PosInf"
| "js_sub PosInf (Finite b) = PosInf"
| "js_sub NegInf (Finite b) = NegInf"
| "js_sub PosInf PosInf = NaN"
| "js_sub PosInf NegInf = PosInf"
| "js_sub NegInf PosInf = NegInf"
| "js_sub NegInf NegInf = NaN"

text \<open>\<^verbatim>\<open>Math.max(a, b)\<close>: NaN when either argument is NaN.\<close>

fun js_max :: "jsnum \<Rightarrow> jsnum \<Rightarrow> jsnum" where
  "js_max NaN _ = NaN"
| "js_max _ NaN = NaN"
| "js_max PosInf _ = PosInf"
| "js_max _ PosInf = PosInf"
| "js_max NegInf b = b"
| "js_max a NegInf = a"
| "js_max (Finite a) (Finite b) = Finite (max a b)"

definition num_of_nat :: "nat \<Rightarrow> jsnum" where
  "num_of_nat k = Finite (of_nat k)"

section \<open>Utility functions\<close>

subsection \<open>The two regular expressions of \<open>isLiveEpisode\<close>\<close>

definition isDigit :: "char \<Rightarrow> bool" where
  "isDigit ch = (CHR ''0'' \<le> ch \<and> ch \<le> CHR ''9'')"

text \<open>The class \<^verbatim>\<open>\w\<close>: ASCII letters, digits and the underscore.\<close>

definition isWordChar :: "char \<Rightarrow> bool" where
  "isWordChar ch = ((CHR ''a'' \<le> ch \<and> ch \<le> CHR ''z'') \<or> (CHR ''A'' \<le> ch \<and> ch \<le> CHR ''Z'')
     \<or> isDigit ch \<or> ch = CHR ''_'')"

text \<open>
  \<^verbatim>\<open>/^[0-9]+(\.[0-9]+)?$/\<close>: the greedy run of digits must be non-empty; then the input
  ends, or a dot follows with a non-empty run of digits up to the end of the input.
\<close>

definition numericNumberTest :: "string \<Rightarrow> bool" where
  "numericNumberTest s =
     (let ds = takeWhile isDigit s; rest = dropWhile isDigit s
      in ds \<noteq> [] \<and>
         (case rest of
            [] \<Rightarrow> True
          | ch # fs \<Rightarrow> ch = CHR ''.'' \<and> fs \<noteq> [] \<and> list_all isDigit fs))"

text \<open>
  Matching one pattern character under the flag \<^verbatim>\<open>i\<close> (without \<^verbatim>\<open>u\<close>): both sides
  are put in upper case, and a character outside ASCII never becomes an ASCII letter.
  The pattern characters here are lower-case ASCII letters.
\<close>

definition ciMatch :: "char \<Rightarrow> char \<Rightarrow> bool" where
  "ciMatch p ch = (ch = p \<or> of_char ch + (32::nat) = of_char p)"

fun ciPrefix :: "string \<Rightarrow> string \<Rightarrow> bool" where
  "ciPrefix [] s = True"
| "ciPrefix (p # ps) [] = False"
| "ciPrefix (p # ps) (ch # s) = (ciMatch p ch \<and> ciPrefix ps s)"

text \<open>The assertion \<^verbatim>\<open>\b\<close> between a left and a right neighbour (\<open>None\<close> at either
  end of the input): exactly one of the two is a word character.\<close>

definition wordBoundary :: "char option \<Rightarrow> char option \<Rightarrow> bool" where
  "wordBoundary l r =
     ((case l of None \<Rightarrow> False | Some a \<Rightarrow> isWordChar a) \<noteq>
      (case r of None \<Rightarrow> False | Some b \<Rightarrow> isWordChar b))"

definition headOpt :: "'a list \<Rightarrow> 'a option" where
  "headOpt xs = (case xs of [] \<Rightarrow> None | x # _ \<Rightarrow> Some x)"

text \<open>\<^verbatim>\<open>\blive\b\<close> anchored at the current position, \<open>prev\<close> being the character
  in front of it.\<close>

definition liveAt :: "char option \<Rightarrow> string \<Rightarrow> bool" where
  "liveAt prev s =
     (wordBoundary prev (headOpt s) \<and> ciPrefix ''live'' s \<and>
      wordBoundary (headOpt (drop 3 s)) (headOpt (drop 4 s)))"

text \<open>\<^verbatim>\<open>/\blive\b/i.test(title)\<close>: the match is tried at every position from the left.\<close>

fun liveSearch :: "char option \<Rightarrow> string \<Rightarrow> bool" where
  "liveSearch prev [] = liveAt prev []"
| "liveSearch prev (ch # s) = (liveAt prev (ch # s) \<or> liveSearch (Some ch) s)"

definition liveTitleTest :: "string \<Rightarrow> bool" where
  "liveTitleTest title = liveSearch None title"

subsection \<open>Episodes\<close>

text \<open>A raw record of the data file: title \<open>t\<close>, number \<open>n\<close>, date string \<open>d\<close>, guests
  \<open>g\<close>, characters \<open>c\<close>, image \<open>i\<close>. The number, the lists and the image may be absent.\<close>

record raw_episode =
  e_t :: string
  e_n :: "string option"
  e_d :: string
  e_g :: "string list option"
  e_c :: "string list option"
  e_i :: "string option"

text \<open>The object built by \<^verbatim>\<open>raw.episodes.map\<close>, once its date is known to be valid.\<close>

record episode =
  ep_title :: string
  ep_number :: "string option"
  ep_date :: int
  ep_guests :: "string list"
  ep_characters :: "string list"
  ep_imageUrl :: "string option"

text \<open>The computed properties written into each episode after sorting.\<close>

record loaded_episode = episode +
  ep_idx :: nat
  ep_year :: int
  ep_week :: int
  num_characters :: nat
  num_guests :: nat
  characters_per_guest :: jsnum

text \<open>
  \<open>isLiveEpisode\<close> reads \<^verbatim>\<open>episode.number || episode.n\<close> and
  \<^verbatim>\<open>episode.title || episode.t || ''\<close>; the episodes it is called on have no fields
  \<open>n\<close> and \<open>t\<close>. An absent or empty number is falsy, and then the first check yields that
  falsy value, so that the result is the second check.
\<close>

definition isLiveEpisode :: "'a episode_scheme \<Rightarrow> bool" where
  "isLiveEpisode ep =
     (let num = (case ep_number ep of None \<Rightarrow> None | Some s \<Rightarrow> if s = [] then None else Some s);
          title = ep_title ep;
          hasNonNumericNumber = (case num of None \<Rightarrow> False | Some s \<Rightarrow> \<not> numericNumberTest s);
          hasLiveInTitle = liveTitleTest title
      in hasNonNumericNumber \<or> hasLiveInTitle)"

section \<open>Data loading\<close>

definition parseDate :: "host \<Rightarrow> string \<Rightarrow> int option" where
  "parseDate h s = newDate h s"

definition getWeekOfYear :: "host \<Rightarrow> int \<Rightarrow> int" where
  "getWeekOfYear h date = (date - yearStart h (getFullYear h date)) div 604800000"

text \<open>\<^verbatim>\<open>x || []\<close> on a list that may be absent, and \<^verbatim>\<open>x || null\<close> on a string.\<close>

definition orEmpty :: "'a list option \<Rightarrow> 'a list" where
  "orEmpty x = (case x of None \<Rightarrow> [] | Some xs \<Rightarrow> xs)"

definition orNull :: "string option \<Rightarrow> string option" where
  "orNull x = (case x of None \<Rightarrow> None | Some s \<Rightarrow> if s = [] then None else Some s)"

text \<open>\<^verbatim>\<open>.map(e => ({...})).filter(e => e.date)\<close>: a record whose date does not parse
  has the date \<^verbatim>\<open>null\<close> and is removed; a \<^verbatim>\<open>Date\<close> object is always truthy.\<close>

definition mapEpisode :: "host \<Rightarrow> raw_episode \<Rightarrow> episode option" where
  "mapEpisode h e =
     (case parseDate h (e_d e) of
        None \<Rightarrow> None
      | Some date \<Rightarrow> Some \<lparr> ep_title = e_t e, ep_number = e_n e, ep_date = date,
          ep_guests = orEmpty (e_g e), ep_characters = orEmpty (e_c e),
          ep_imageUrl = orNull (e_i e) \<rparr>)"

definition sortedEpisodes :: "host \<Rightarrow> raw_episode list \<Rightarrow> episode list" where
  "sortedEpisodes h raw_eps =
     js_sort (\<lambda>a b. ep_date a - ep_date b) (List.map_filter (mapEpisode h) raw_eps)"

definition addComputed :: "host \<Rightarrow> nat \<Rightarrow> episode \<Rightarrow> loaded_episode" where
  "addComputed h k ep =
     episode.extend ep
       \<lparr> ep_idx = k,
         ep_year = getFullYear h (ep_date ep),
         ep_week = getWeekOfYear h (ep_date ep),
         num_characters = length (ep_characters ep),
         num_guests = length (ep_guests ep),
         characters_per_guest =
           js_div (num_of_nat (length (ep_characters ep))) (num_of_nat (length (ep_guests ep))) \<rparr>"

definition loadEpisodes :: "host \<Rightarrow> raw_episode list \<Rightarrow> loaded_episode list" where
  "loadEpisodes h raw_eps = map (\<lambda>(k, ep). addComputed h k ep) (enumerate 0 (sortedEpisodes h raw_eps))"

subsection \<open>The lookup maps\<close>

text \<open>
  An entry of \<open>guestMap\<close> or \<open>characterMap\<close>. Only the entries of \<open>characterMap\<close> have the
  set \<open>guests\<close>; a \<^verbatim>\<open>Set\<close> keeps its elements in insertion order, and so does a
  \<^verbatim>\<open>Map\<close>: it is an association list, where \<^verbatim>\<open>set\<close> on a present key keeps the key's
  position and on a new key appends (\<^const>\<open>AList.update\<close>). The image is attached
  after the maps are built: it is a URL of the image table, or, for a name the table has
  no property of its own for, the member of that name that the table inherits.
\<close>

datatype image_ref = Url string | Inherited string

record entity =
  ent_name :: string
  ent_episodes :: "nat list"
  firstIdx :: nat
  lastIdx :: nat
  ent_guests :: "string list option"
  ent_imageUrl :: "image_ref option"

type_synonym entity_map = "(string \<times> entity) list"

definition setAdd :: "'a list \<Rightarrow> 'a \<Rightarrow> 'a list" where
  "setAdd xs x = (if x \<in> set xs then xs else xs @ [x])"

definition visitGuest :: "nat \<Rightarrow> entity_map \<Rightarrow> string \<Rightarrow> entity_map" where
  "visitGuest k guestMap g =
     (let m = (if map_of guestMap g = None
               then AList.update g \<lparr> ent_name = g, ent_episodes = [], firstIdx = k, lastIdx = k,
                                     ent_guests = None, ent_imageUrl = None \<rparr> guestMap
               else guestMap)
      in case map_of m g of
           None \<Rightarrow> m
         | Some gData \<Rightarrow>
             AList.update g (gData \<lparr> ent_episodes := ent_episodes gData @ [k], lastIdx := k \<rparr>) m)"

definition visitCharacter :: "nat \<Rightarrow> string list \<Rightarrow> entity_map \<Rightarrow> string \<Rightarrow> entity_map" where
  "visitCharacter k gs characterMap c =
     (let m = (if map_of characterMap c = None
               then AList.update c \<lparr> ent_name = c, ent_episodes = [], firstIdx = k, lastIdx = k,
                                     ent_guests = Some [], ent_imageUrl = None \<rparr> characterMap
               else characterMap)
      in case map_of m c of
           None \<Rightarrow> m
         | Some cData \<Rightarrow>
             AList.update c (cData \<lparr> ent_episodes := ent_episodes cData @ [k], lastIdx := k,
                                     ent_guests := map_option (\<lambda>s. foldl setAdd s gs) (ent_guests cData) \<rparr>) m)"

text \<open>\<^verbatim>\<open>episodes.forEach((ep, idx) => ...)\<close>, the index counted from \<open>k\<close>.\<close>

fun buildMaps :: "nat \<Rightarrow> 'a episode_scheme list \<Rightarrow> entity_map \<times> entity_map \<Rightarrow> entity_map \<times> entity_map" where
  "buildMaps k [] maps = maps"
| "buildMaps k (ep # eps) (guestMap, characterMap) =
     buildMaps (Suc k) eps
       (foldl (visitGuest k) guestMap (ep_guests ep),
        foldl (visitCharacter k (ep_guests ep)) characterMap (ep_characters ep))"

definition groupByYear :: "loaded_episode list \<Rightarrow> (int \<times> loaded_episode list) list" where
  "groupByYear eps =
     foldl (\<lambda>m ep.
        (let m1 = (if map_of m (ep_year ep) = None then AList.update (ep_year ep) [] m else m)
         in case map_of m1 (ep_year ep) of
              None \<Rightarrow> m1
            | Some yearEps \<Rightarrow> AList.update (ep_year ep) (yearEps @ [ep]) m1)) [] eps"

text \<open>\<^verbatim>\<open>images[name] || null\<close>, where \<open>images\<close> gives the properties of the table's own: an
  own empty string is falsy; without an own property the inherited member, a function or
  an object, is read, and it is truthy.\<close>

definition lookupOrNull :: "host \<Rightarrow> (string \<Rightarrow> string option) \<Rightarrow> string \<Rightarrow> image_ref option" where
  "lookupOrNull h images key =
     (case images key of
        Some u \<Rightarrow> if u = [] then None else Some (Url u)
      | None \<Rightarrow> if objectPrototypeHas h key then Some (Inherited key) else None)"

definition attachImages :: "host \<Rightarrow> (string \<Rightarrow> string option) \<Rightarrow> entity_map \<Rightarrow> entity_map" where
  "attachImages h images m =
     map (\<lambda>(key, ent). (key, ent \<lparr> ent_imageUrl := lookupOrNull h images key \<rparr>)) m"

subsection \<open>Statistics\<close>

record stats =
  maxEpisodesWithLive :: nat
  maxEpisodesWithoutLive :: nat
  maxGuests :: nat
  maxCharacters :: nat
  maxCharactersPerGuest :: jsnum

definition yearStep :: "stats \<Rightarrow> loaded_episode list \<Rightarrow> stats" where
  "yearStep st yearEps =
     (let st1 = st \<lparr> maxEpisodesWithLive := max (maxEpisodesWithLive st) (length yearEps) \<rparr>;
          withoutLive = length (filter (\<lambda>ep. \<not> isLiveEpisode ep) yearEps)
      in st1 \<lparr> maxEpisodesWithoutLive := max (maxEpisodesWithoutLive st1) withoutLive \<rparr>)"

definition episodeStep :: "stats \<Rightarrow> loaded_episode \<Rightarrow> stats" where
  "episodeStep st ep =
     (let st1 = st \<lparr> maxGuests := max (maxGuests st) (num_guests ep) \<rparr>;
          st2 = st1 \<lparr> maxCharacters := max (maxCharacters st1) (num_characters ep) \<rparr>
      in if 0 < num_guests ep
         then st2 \<lparr> maxCharactersPerGuest :=
                      js_max (maxCharactersPerGuest st2) (characters_per_guest ep) \<rparr>
         else st2)"

definition computeStats :: "(int \<times> loaded_episode list) list \<Rightarrow> loaded_episode list \<Rightarrow> stats" where
  "computeStats episodesByYear eps =
     foldl episodeStep
       (foldl yearStep
          \<lparr> maxEpisodesWithLive = 0, maxEpisodesWithoutLive = 0, maxGuests = 0,
            maxCharacters = 0, maxCharactersPerGuest = Finite 0 \<rparr>
          (map snd episodesByYear))
       eps"

subsection \<open>\<open>loadData\<close>\<close>

text \<open>Of the raw data, the fields \<open>loadData\<close> computes with; of its result, the fields
  the rest of the model reads (\<open>guestCharacters\<close>, the two image tables and \<open>years\<close> are
  passed on or derived without a part in what follows). An image table is an object used
  as a lookup table; it is given by its own properties, and \<^verbatim>\<open>{}\<close> has none.\<close>

record raw_data =
  raw_episodes :: "raw_episode list"
  raw_guestImages :: "(string \<Rightarrow> string option) option"
  raw_characterImages :: "(string \<Rightarrow> string option) option"

record data =
  d_episodes :: "loaded_episode list"
  guestMap :: entity_map
  characterMap :: entity_map
  episodesByYear :: "(int \<times> loaded_episode list) list"
  d_stats :: stats

definition orEmptyObject :: "('k \<Rightarrow> 'v option) option \<Rightarrow> ('k \<Rightarrow> 'v option)" where
  "orEmptyObject x = (case x of None \<Rightarrow> (\<lambda>_. None) | Some m \<Rightarrow> m)"

definition processData :: "host \<Rightarrow> raw_data \<Rightarrow> data" where
  "processData h raw =
     (let eps = loadEpisodes h (raw_episodes raw);
          maps = buildMaps 0 eps ([], []);
          byYear = groupByYear eps
      in \<lparr> d_episodes = eps,
           guestMap = attachImages h (orEmptyObject (raw_guestImages raw)) (fst maps),
           characterMap = attachImages h (orEmptyObject (raw_characterImages raw)) (snd maps),
           episodesByYear = byYear,
           d_stats = computeStats byYear eps \<rparr>)"

text \<open>\<^verbatim>\<open>if (!raw) return null\<close>.\<close>

definition loadData :: "host \<Rightarrow> raw_data option \<Rightarrow> data option" where
  "loadData h raw = map_option (processData h) raw"

section \<open>The application state\<close>

datatype entity_kind = Guest | Character

text \<open>The cells of \<^verbatim>\<open>useState\<close>. The cell size is a number with a fractional part; it is
  modelled as an exact rational.\<close>

record app_state =
  selectedEntity :: "string option"
  entityType :: entity_kind
  hoveredEpisode :: "nat option"
  pinnedEpisode :: "nat option"
  sortBy :: string
  cellSize :: rat
  includeLiveEps :: bool
  colorMode :: string
  searchQuery :: string
  hoveredEntity :: "(string \<times> entity_kind) option"

definition initialState :: app_state where
  "initialState = \<lparr> selectedEntity = None, entityType = Guest, hoveredEpisode = None,
     pinnedEpisode = None, sortBy = ''appearances'', cellSize = 11, includeLiveEps = False,
     colorMode = ''guests'', searchQuery = [], hoveredEntity = None \<rparr>"

subsection \<open>Selecting an entity\<close>

text \<open>
  Every click ends at \<open>handleBackgroundClick\<close> of the page: when an episode is pinned and
  the click is neither inside the episode summary nor on a timeline cell, the pin is
  cleared. Both handlers of one click read the state of the same render, and their updates
  are applied together.
\<close>

definition handleBackgroundClick :: "bool \<Rightarrow> bool \<Rightarrow> app_state \<Rightarrow> app_state" where
  "handleBackgroundClick inEpisodeSummary onTimelineCell s =
     (if pinnedEpisode s = None then s
      else if inEpisodeSummary then s
      else if onTimelineCell then s
      else s \<lparr> pinnedEpisode := None \<rparr>)"

text \<open>The three places whose click handler calls \<open>setSelectedEntity\<close> with a name: an item
  of the entity list (\<open>isSelected\<close> compares the name with the selected one), a guest or
  character button of the episode summary, and a related entity of the detail panel. Only
  the buttons of the episode summary are inside the episode summary.\<close>

definition clickEntityListItem :: "string \<Rightarrow> app_state \<Rightarrow> app_state" where
  "clickEntityListItem nm s =
     (let isSelected = (selectedEntity s = Some nm)
      in handleBackgroundClick False False
           (s \<lparr> selectedEntity := (if isSelected then None else Some nm) \<rparr>))"

definition clickSummaryGuest :: "string \<Rightarrow> app_state \<Rightarrow> app_state" where
  "clickSummaryGuest g s =
     handleBackgroundClick True False (s \<lparr> entityType := Guest, selectedEntity := Some g \<rparr>)"

definition clickSummaryCharacter :: "string \<Rightarrow> app_state \<Rightarrow> app_state" where
  "clickSummaryCharacter c s =
     handleBackgroundClick True False (s \<lparr> entityType := Character, selectedEntity := Some c \<rparr>)"

definition clickRelated :: "string \<times> entity_kind \<Rightarrow> app_state \<Rightarrow> app_state" where
  "clickRelated r s =
     handleBackgroundClick False False (s \<lparr> entityType := snd r, selectedEntity := Some (fst r) \<rparr>)"

definition clickEntityTypeTab :: "entity_kind \<Rightarrow> app_state \<Rightarrow> app_state" where
  "clickEntityTypeTab t s =
     handleBackgroundClick False False
       (s \<lparr> entityType := t, selectedEntity := None, searchQuery := [] \<rparr>)"

text \<open>For a click on a timeline cell \<open>handleBackgroundClick\<close> returns without an update,
  so the click is the toggle of the pin alone.\<close>

definition clickTimelineCell :: "nat \<Rightarrow> app_state \<Rightarrow> app_state" where
  "clickTimelineCell k s =
     s \<lparr> pinnedEpisode := (if pinnedEpisode s = Some k then None else Some k) \<rparr>"

subsection \<open>The colour of a timeline cell\<close>

text \<open>A colour is a fixed string or the template \<^verbatim>\<open>hsl(210, 50%, ${lightness}%)\<close>; the
  default \<^verbatim>\<open>'hsl(210, 50%, 60%)'\<close> is the template at lightness 60.\<close>

datatype css_color = Literal string | Hsl210 jsnum

definition ENTITY_HOVER_COLOR :: css_color where
  "ENTITY_HOVER_COLOR = Literal ''hsl(45, 100%, 51%)''"

definition EPISODE_HIGHLIGHT_COLOR :: css_color where
  "EPISODE_HIGHLIGHT_COLOR = Literal ''hsl(45, 100%, 51%)''"

definition EPISODE_LIVE_COLOR :: css_color where
  "EPISODE_LIVE_COLOR = Literal ''#EE6C4D''"

definition getEpisodeBaseColor :: "jsnum \<Rightarrow> jsnum \<Rightarrow> css_color" where
  "getEpisodeBaseColor guestCount maxCount =
     (if maxCount = Finite 0 then Hsl210 (Finite 60)
      else (let ratio = js_div guestCount maxCount;
                lightness = js_sub (Finite 85) (js_mul ratio (Finite 40))
            in Hsl210 lightness))"

definition episodeHasEntity :: "app_state \<Rightarrow> 'a episode_scheme \<Rightarrow> bool" where
  "episodeHasEntity s ep =
     (case selectedEntity s of
        None \<Rightarrow> False
      | Some nm \<Rightarrow>
          if nm = [] then False
          else if entityType s = Guest then nm \<in> set (ep_guests ep)
          else nm \<in> set (ep_characters ep))"

definition cellBackground :: "app_state \<Rightarrow> stats \<Rightarrow> loaded_episode \<Rightarrow> css_color" where
  "cellBackground s st ep =
     (let hasHighlight = episodeHasEntity s ep;
          hasHoveredEntity =
            (case hoveredEntity s of
               None \<Rightarrow> False
             | Some (nm, ty) \<Rightarrow>
                 (ty = Guest \<and> nm \<in> set (ep_guests ep)) \<or>
                 (ty = Character \<and> nm \<in> set (ep_characters ep)))
      in if hasHoveredEntity then ENTITY_HOVER_COLOR
         else if hasHighlight then EPISODE_HIGHLIGHT_COLOR
         else if isLiveEpisode ep then EPISODE_LIVE_COLOR
         else if colorMode s = ''characters''
           then getEpisodeBaseColor (num_of_nat (num_characters ep)) (num_of_nat (maxCharacters st))
         else if colorMode s = ''chars-per-guest''
           then getEpisodeBaseColor (characters_per_guest ep) (maxCharactersPerGuest st)
         else getEpisodeBaseColor (num_of_nat (num_guests ep)) (num_of_nat (maxGuests st)))"

subsection \<open>The entity list\<close>

text \<open>\<^verbatim>\<open>s.includes(q)\<close>: \<open>q\<close> occurs in \<open>s\<close> at some position.\<close>

fun js_includes :: "string \<Rightarrow> string \<Rightarrow> bool" where
  "js_includes [] q = (q = [])"
| "js_includes (ch # s) q = (take (length q) (ch # s) = q \<or> js_includes s q)"

definition sortedEntities :: "host \<Rightarrow> data \<Rightarrow> app_state \<Rightarrow> entity list" where
  "sortedEntities h d s =
     (let m = (if entityType s = Guest then guestMap d else characterMap d);
          entities = map snd m;
          entities = (if searchQuery s \<noteq> []
                      then (let q = toLowerCase h (searchQuery s)
                            in filter (\<lambda>e. js_includes (toLowerCase h (ent_name e)) q) entities)
                      else entities)
      in if sortBy s = ''appearances''
           then js_sort (\<lambda>a b. int (length (ent_episodes b)) - int (length (ent_episodes a))) entities
         else if sortBy s = ''first''
           then js_sort (\<lambda>a b. int (firstIdx a) - int (firstIdx b)) entities
         else if sortBy s = ''last''
           then js_sort (\<lambda>a b. int (lastIdx b) - int (lastIdx a)) entities
         else if sortBy s = ''name''
           then js_sort (\<lambda>a b. localeCompare h (ent_name a) (ent_name b)) entities
         else entities)"

subsection \<open>Sizing the cells\<close>

text \<open>
  \<open>updateCellSize\<close> reads the width of the container and the \<open>cellSize\<close> of the render
  that created it, and calls \<open>setCellSize\<close> or not: the result is the argument of that call.
  The effect does nothing when there is no container or \<open>maxEpisodesInYear\<close> is 0.
  Widths and counts are integers; the quotient is modelled as an exact rational, and the
  threshold \<^verbatim>\<open>0.1\<close> as one tenth.
\<close>

definition updateCellSize :: "rat \<Rightarrow> int \<Rightarrow> nat \<Rightarrow> rat option" where
  "updateCellSize closureCellSize containerWidth maxEpisodesInYear =
     (if containerWidth = 0 then None
      else (let padding = 32; yearLabelWidth = 40; countLabelWidth = 30; gap = 1;
                availableWidth = containerWidth - padding - yearLabelWidth - countLabelWidth;
                size = (of_int availableWidth - (of_nat maxEpisodesInYear - 1) * gap)
                         / of_nat maxEpisodesInYear
            in if 4 \<le> size \<and> 1 / 10 < \<bar>size - closureCellSize\<bar> then Some size else None))"

definition cellSizeEffect :: "rat \<Rightarrow> int option \<Rightarrow> nat \<Rightarrow> app_state \<Rightarrow> app_state" where
  "cellSizeEffect closureCellSize container maxEpisodesInYear s =
     (case container of
        None \<Rightarrow> s
      | Some containerWidth \<Rightarrow>
          if maxEpisodesInYear = 0 then s
          else (case updateCellSize closureCellSize containerWidth maxEpisodesInYear of
                  None \<Rightarrow> s
                | Some newSize \<Rightarrow> s \<lparr> cellSize := newSize \<rparr>))"

subsection \<open>The debounced hover\<close>

text \<open>
  The timers of the host: \<open>setTimeout\<close> returns a fresh positive handle and queues the
  callback for the current time plus the delay; \<open>clearTimeout\<close> removes the timer with
  that handle, if it is still queued. The only callback here is
  \<^verbatim>\<open>() => setHoveredEpisode(idx)\<close>, so a timer carries its \<open>idx\<close>. The record keeps, beside
  the state, the reference \<open>hoverTimeoutRef\<close> and a log of the calls of \<open>setHoveredEpisode\<close>
  with their times.
\<close>

record timer =
  tm_handle :: nat
  tm_due :: nat
  tm_idx :: nat

record world =
  app :: app_state
  hoverTimeoutRef :: "nat option"
  timers :: "timer list"
  nextHandle :: nat
  now :: nat
  hoverLog :: "(nat \<times> nat option) list"

definition initialWorld :: world where
  "initialWorld = \<lparr> app = initialState, hoverTimeoutRef = None, timers = [], nextHandle = 1,
     now = 0, hoverLog = [] \<rparr>"

definition setHoveredEpisode :: "nat option \<Rightarrow> world \<Rightarrow> world" where
  "setHoveredEpisode v w =
     w \<lparr> app := (app w) \<lparr> hoveredEpisode := v \<rparr>, hoverLog := hoverLog w @ [(now w, v)] \<rparr>"

definition clearTimeout :: "nat \<Rightarrow> world \<Rightarrow> world" where
  "clearTimeout handle w = w \<lparr> timers := filter (\<lambda>t. tm_handle t \<noteq> handle) (timers w) \<rparr>"

definition setTimeout :: "nat \<Rightarrow> nat \<Rightarrow> world \<Rightarrow> nat \<times> world" where
  "setTimeout k delay w =
     (nextHandle w,
      w \<lparr> timers := timers w @ [\<lparr> tm_handle = nextHandle w, tm_due = now w + delay, tm_idx = k \<rparr>],
          nextHandle := Suc (nextHandle w) \<rparr>)"

definition setHoveredEpisodeDebounced :: "nat \<Rightarrow> world \<Rightarrow> world" where
  "setHoveredEpisodeDebounced k w =
     (let w1 = (case hoverTimeoutRef w of
                  None \<Rightarrow> w
                | Some handle \<Rightarrow> if handle \<noteq> 0 then clearTimeout handle w else w);
          (handle, w2) = setTimeout k 50 w1
      in w2 \<lparr> hoverTimeoutRef := Some handle \<rparr>)"

text \<open>\<open>onMouseLeave\<close> of a row of the timeline.\<close>

definition timelineMouseLeave :: "world \<Rightarrow> world" where
  "timelineMouseLeave w =
     (let w1 = (case hoverTimeoutRef w of
                  None \<Rightarrow> w
                | Some handle \<Rightarrow> if handle \<noteq> 0 then clearTimeout handle w else w)
      in setHoveredEpisode None w1)"

text \<open>Time passes up to \<open>t\<close>: the queued timers that are due run in the order of their due
  times (first queued first among equals), each at its due time.\<close>

definition fire :: "world \<Rightarrow> timer \<Rightarrow> world" where
  "fire w t = setHoveredEpisode (Some (tm_idx t)) (w \<lparr> now := tm_due t \<rparr>)"

definition advance :: "nat \<Rightarrow> world \<Rightarrow> world" where
  "advance t w =
     (let due = filter (\<lambda>x. tm_due x \<le> t) (timers w);
          w1 = foldl fire (w \<lparr> timers := filter (\<lambda>x. \<not> tm_due x \<le> t) (timers w) \<rparr>)
                 (sort_key tm_due due)
      in w1 \<lparr> now := max (now w1) t \<rparr>)"

text \<open>A sequence of \<open>mouseenter\<close> events on cells, each with its time and the index of its
  cell, and then silence until \<open>t\<close>.\<close>

definition hoverAt :: "world \<Rightarrow> nat \<times> nat \<Rightarrow> world" where
  "hoverAt w ev = setHoveredEpisodeDebounced (snd ev) (advance (fst ev) w)"

definition runHovers :: "(nat \<times> nat) list \<Rightarrow> nat \<Rightarrow> world \<Rightarrow> world" where
  "runHovers evs t w = advance t (foldl hoverAt w evs)"

section \<open>Invariants of the index construction\<close>

text \<open>An entry is well formed when its list of episodes is not empty and strictly ascending,
  and its first and last index are the ends of that list. While the episode at index \<open>k\<close> is
  processed, the entries of the names already seen in it end at most at \<open>k\<close>, the others
  before \<open>k\<close>.\<close>

definition goodEntry :: "entity \<Rightarrow> bool" where
  "goodEntry e = (ent_episodes e \<noteq> [] \<and> sorted_wrt (<) (ent_episodes e) \<and>
     firstIdx e = hd (ent_episodes e) \<and> lastIdx e = last (ent_episodes e))"

definition mapInv :: "nat \<Rightarrow> string set \<Rightarrow> entity_map \<Rightarrow> bool" where
  "mapInv k seen m = (distinct (map fst m) \<and>
     (\<forall>key e. map_of m key = Some e \<longrightarrow>
        goodEntry e \<and> (if key \<in> seen then last (ent_episodes e) \<le> k else last (ent_episodes e) < k)))"

definition playedInv :: "'a episode_scheme list \<Rightarrow> entity_map \<Rightarrow> bool" where
  "playedInv all m = (distinct (map fst m) \<and>
     (\<forall>key e. map_of m key = Some e \<longrightarrow>
        (\<exists>gs. ent_guests e = Some gs \<and>
              set gs = (\<Union>j\<in>set (ent_episodes e). set (ep_guests (all ! j)))) \<and>
        (\<forall>j\<in>set (ent_episodes e). j < length all)))"

section \<open>The classifier in the words of its description\<close>

text \<open>A pure integer or decimal: a non-empty run of digits, optionally followed by a dot
  and another non-empty run of digits.\<close>

definition pureDecimal :: "string \<Rightarrow> bool" where
  "pureDecimal s = (\<exists>ds. ds \<noteq> [] \<and> list_all isDigit ds \<and>
      (s = ds \<or> (\<exists>fs. fs \<noteq> [] \<and> list_all isDigit fs \<and> s = ds @ CHR ''.'' # fs)))"

text \<open>The title contains the word \<open>live\<close>, in any case, with no word character next to it
  on either side.\<close>

definition asciiLowerChar :: "char \<Rightarrow> char" where
  "asciiLowerChar ch = (if CHR ''A'' \<le> ch \<and> ch \<le> CHR ''Z''
                        then char_of (of_char ch + (32::nat)) else ch)"

definition asciiLower :: "string \<Rightarrow> string" where
  "asciiLower s = map asciiLowerChar s"

definition standaloneLive :: "string \<Rightarrow> bool" where
  "standaloneLive title = (\<exists>pre w post. title = pre @ w @ post \<and> asciiLower w = ''live'' \<and>
      (pre = [] \<or> \<not> isWordChar (last pre)) \<and> (post = [] \<or> \<not> isWordChar (hd post)))"

definition wordOpt :: "char option \<Rightarrow> bool" where
  "wordOpt x = (case x of None \<Rightarrow> False | Some a \<Rightarrow> isWordChar a)"

definition liveHereEpisode :: episode where
  "liveHereEpisode = \<lparr> ep_title = ''I'll Always Live Here'', ep_number = Some ''145'', ep_date = 0,
     ep_guests = [], ep_characters = [], ep_imageUrl = None \<rparr>"

definition emptyNumberEpisode :: episode where
  "emptyNumberEpisode = \<lparr> ep_title = ''Welcome'', ep_number = Some [], ep_date = 0,
     ep_guests = [], ep_characters = [], ep_imageUrl = None \<rparr>"

definition liveAustinEpisode :: episode where
  "liveAustinEpisode = \<lparr> ep_title = ''Live from Austin'', ep_number = Some ''312'', ep_date = 0,
     ep_guests = [], ep_characters = [], ep_imageUrl = None \<rparr>"

definition liveNoNumberEpisode :: episode where
  "liveNoNumberEpisode = \<lparr> ep_title = ''We are LIVE!'', ep_number = None, ep_date = 0,
     ep_guests = [], ep_characters = [], ep_imageUrl = None \<rparr>"

section \<open>Notions used in the statements\<close>

text \<open>The entities that a search text keeps: all of them when it is empty, otherwise those
  whose name, in lower case, has the search text, in lower case, as a contiguous part.\<close>

definition queryMatches :: "host \<Rightarrow> string \<Rightarrow> entity \<Rightarrow> bool" where
  "queryMatches h q e =
     (q = [] \<or> (\<exists>pre post. toLowerCase h (ent_name e) = pre @ toLowerCase h q @ post))"

definition filteredEntities :: "host \<Rightarrow> data \<Rightarrow> app_state \<Rightarrow> entity list" where
  "filteredEntities h d s =
     filter (queryMatches h (searchQuery s))
       (map snd (if entityType s = Guest then guestMap d else characterMap d))"

text \<open>A burst of hover events: the times do not decrease, and each event comes less than 50
  time units after the one before it, that is, while the timer of that one is pending.\<close>

fun burst :: "(nat \<times> nat) list \<Rightarrow> bool" where
  "burst [] = True"
| "burst [e] = True"
| "burst (e1 # e2 # es) = (fst e1 \<le> fst e2 \<and> fst e2 < fst e1 + 50 \<and> burst (e2 # es))"

text \<open>After a hover at time \<open>t\<close> on the cell \<open>k\<close>, exactly one timer is queued: the one of
  this hover, and \<open>hoverTimeoutRef\<close> holds its handle.\<close>

definition pendingInv :: "nat \<Rightarrow> nat \<Rightarrow> (nat \<times> nat option) list \<Rightarrow> app_state \<Rightarrow> world \<Rightarrow> bool" where
  "pendingInv t k lg a w =
     (\<exists>handle. handle \<noteq> 0 \<and> handle < nextHandle w \<and>
        timers w = [\<lparr> tm_handle = handle, tm_due = t + 50, tm_idx = k \<rparr>] \<and>
        hoverTimeoutRef w = Some handle \<and> now w = t \<and> hoverLog w = lg \<and> app w = a)"

section \<open>A concrete host and corpus\<close>

definition demoHost :: host where
  "demoHost = \<lparr>
     newDate = (\<lambda>s. if s = ''2009-05-01'' then Some 1241136000000
                    else if s = ''2010-03-15'' then Some 1268611200000
                    else if s = ''2011-07-04'' then Some 1309737600000
                    else None),
     getFullYear = (\<lambda>t. 1970 + t div 31556952000),
     yearStart = (\<lambda>y. (y - 1970) * 31556952000),
     toLowerCase = asciiLower,
     localeCompare = (\<lambda>a b. if a < b then - 1 else if a = b then 0 else 1),
     objectPrototypeHas = (\<lambda>key. key \<in> set [''constructor'', ''toString'', ''toLocaleString'',
       ''valueOf'', ''hasOwnProperty'', ''isPrototypeOf'', ''propertyIsEnumerable'',
       ''__proto__'']) \<rparr>"

definition demoRaw :: "raw_episode list" where
  "demoRaw =
     [ \<lparr> e_t = ''Third'', e_n = Some ''3'', e_d = ''2011-07-04'',
         e_g = Some [''A'', ''C''], e_c = Some [''X''], e_i = None \<rparr>,
       \<lparr> e_t = ''Broken'', e_n = Some ''9'', e_d = ''someday'',
         e_g = Some [''C''], e_c = None, e_i = None \<rparr>,
       \<lparr> e_t = ''First'', e_n = Some ''1'', e_d = ''2009-05-01'',
         e_g = Some [''A''], e_c = Some [''X'', ''Y''], e_i = Some ''a.png'' \<rparr>,
       \<lparr> e_t = ''Second'', e_n = Some ''2'', e_d = ''2010-03-15'',
         e_g = Some [''B''], e_c = None, e_i = None \<rparr>,
       \<lparr> e_t = ''Second again'', e_n = Some ''2.5'', e_d = ''2010-03-15'',
         e_g = None, e_c = Some [''Y''], e_i = None \<rparr> ]"

definition demoData :: raw_data where
  "demoData = \<lparr> raw_episodes = demoRaw, raw_guestImages = None,
     raw_characterImages = Some (\<lambda>key. if key = ''X'' then Some ''x.png'' else None) \<rparr>"

definition scenarioData :: raw_data where
  "scenarioData = \<lparr> raw_episodes =
     [ \<lparr> e_t = ''One'', e_n = Some ''1'', e_d = ''2009-05-01'', e_g = Some [''A''], e_c = None, e_i = None \<rparr>,
       \<lparr> e_t = ''Two'', e_n = Some ''2'', e_d = ''2010-03-15'', e_g = Some [''B''], e_c = None, e_i = None \<rparr>,
       \<lparr> e_t = ''Three'', e_n = Some ''3'', e_d = ''2011-07-04'', e_g = Some [''A''], e_c = None, e_i = None \<rparr> ],
     raw_guestImages = None, raw_characterImages = None \<rparr>"

definition selectedA :: app_state where
  "selectedA = initialState \<lparr> selectedEntity := Some ''A'' \<rparr>"

definition perGuestState :: app_state where
  "perGuestState = initialState \<lparr> colorMode := ''chars-per-guest'' \<rparr>"

text \<open>A corpus whose maximum of characters per guest is 0: one episode with a guest and no
  character, one with a character and no guest.\<close>

definition zeroMaxData :: raw_data where
  "zeroMaxData = \<lparr> raw_episodes =
     [ \<lparr> e_t = ''Solo'', e_n = Some ''1'', e_d = ''2009-05-01'', e_g = Some [''A''], e_c = None,
         e_i = None \<rparr>,
       \<lparr> e_t = ''Nobody'', e_n = Some ''2'', e_d = ''2010-03-15'', e_g = None, e_c = Some [''X''],
         e_i = None \<rparr> ],
     raw_guestImages = None, raw_characterImages = None \<rparr>"

section \<open>Sorting lemmas\<close>

lemma js_insert_key: "js_insert (\<lambda>a b. f a - f b) x xs = insort_key f x xs"
  for f :: "'a \<Rightarrow> int"
  by (induction xs) auto

lemma js_sort_key: "js_sort (\<lambda>a b. f a - f b) xs = sort_key f xs"
  for f :: "'a \<Rightarrow> int"
  by (induction xs) (auto simp: js_insert_key)

lemma truncate_addComputed: "episode.truncate (addComputed h k ep) = ep"
  by (simp add: addComputed_def episode.defs)

lemma map_truncate_loadEpisodes:
  "map episode.truncate (loadEpisodes h raw_eps) = sortedEpisodes h raw_eps"
proof -
  have "map episode.truncate (map (\<lambda>(k, ep). addComputed h k ep) (enumerate n xs)) = xs"
    for n and xs :: "episode list"
    by (induction xs arbitrary: n) (simp_all add: truncate_addComputed)
  then show ?thesis by (simp add: loadEpisodes_def)
qed

lemma length_loadEpisodes: "length (loadEpisodes h raw_eps) = length (sortedEpisodes h raw_eps)"
  by (simp add: loadEpisodes_def)

lemma nth_loadEpisodes:
  "k < length (loadEpisodes h raw_eps) \<Longrightarrow>
     loadEpisodes h raw_eps ! k = addComputed h k (sortedEpisodes h raw_eps ! k)"
  by (simp add: loadEpisodes_def nth_enumerate_eq)

lemma ep_date_addComputed: "ep_date (addComputed h k ep) = ep_date ep"
  by (simp add: addComputed_def episode.defs)

lemma ep_idx_addComputed: "ep_idx (addComputed h k ep) = k"
  by (simp add: addComputed_def episode.defs)

lemma mapEpisode_None: "(mapEpisode h e = None) = (parseDate h (e_d e) = None)"
  by (simp add: mapEpisode_def split: option.splits)

lemma length_map_filter_mapEpisode:
  "length (List.map_filter (mapEpisode h) raw_eps) =
   length (filter (\<lambda>e. parseDate h (e_d e) \<noteq> None) raw_eps)"
  by (induction raw_eps) (auto simp: List.map_filter_def mapEpisode_None)

lemma sortedEpisodes_sort_key:
  "sortedEpisodes h raw_eps = sort_key ep_date (List.map_filter (mapEpisode h) raw_eps)"
  by (simp add: sortedEpisodes_def js_sort_key)

lemma demo_loadEpisodes:
  "map ep_title (loadEpisodes demoHost demoRaw) = [''First'', ''Second'', ''Second again'', ''Third'']"
  by (simp add: loadEpisodes_def sortedEpisodes_def List.map_filter_def mapEpisode_def
      parseDate_def demoHost_def demoRaw_def orEmpty_def orNull_def addComputed_def
      episode.defs enumerate_eq_zip upt_rec)

section \<open>The record normalizer\<close>

text \<open>
  Claim C1. For every raw corpus, the normalizer keeps exactly the records whose date
  string parses (as many episodes as there are such records, and, without the computed
  properties, the same multiset of objects); the output is ascending by date, records of
  equal date stay in input order, and the computed index of the episode at position \<open>i\<close>
  is \<open>i\<close>.
\<close>

theorem normalizer_sorted_dense:
  "mset (map episode.truncate (loadEpisodes h raw_eps)) =
     mset (List.map_filter (mapEpisode h) raw_eps)
   \<and> length (loadEpisodes h raw_eps) =
       length (filter (\<lambda>e. parseDate h (e_d e) \<noteq> None) raw_eps)
   \<and> sorted (map ep_date (loadEpisodes h raw_eps))
   \<and> (\<forall>t. filter (\<lambda>e. ep_date e = t) (map episode.truncate (loadEpisodes h raw_eps)) =
            filter (\<lambda>e. ep_date e = t) (List.map_filter (mapEpisode h) raw_eps))
   \<and> (\<forall>k < length (loadEpisodes h raw_eps). ep_idx (loadEpisodes h raw_eps ! k) = k)
   \<and> (\<forall>k. Suc k < length (loadEpisodes h raw_eps) \<longrightarrow>
          ep_date (loadEpisodes h raw_eps ! k) \<le> ep_date (loadEpisodes h raw_eps ! Suc k))"
proof -
  let ?eps = "loadEpisodes h raw_eps"
  let ?valid = "List.map_filter (mapEpisode h) raw_eps"
  have trunc: "map episode.truncate ?eps = sort_key ep_date ?valid"
    by (simp add: map_truncate_loadEpisodes sortedEpisodes_sort_key)
  have dates: "map ep_date ?eps = map ep_date (sort_key ep_date ?valid)"
  proof -
    have "map ep_date ?eps = map ep_date (map episode.truncate ?eps)"
      by (simp add: episode.defs comp_def)
    then show ?thesis by (simp only: trunc)
  qed
  have a: "mset (map episode.truncate ?eps) = mset ?valid"
    by (simp add: trunc)
  have b: "length ?eps = length (filter (\<lambda>e. parseDate h (e_d e) \<noteq> None) raw_eps)"
    by (simp add: length_loadEpisodes sortedEpisodes_sort_key length_map_filter_mapEpisode)
  have c: "sorted (map ep_date ?eps)"
    by (simp add: dates)
  have d: "\<forall>t. filter (\<lambda>e. ep_date e = t) (map episode.truncate ?eps) =
               filter (\<lambda>e. ep_date e = t) ?valid"
    by (simp add: trunc sort_key_stable)
  have e: "\<forall>k < length ?eps. ep_idx (?eps ! k) = k"
    by (simp add: nth_loadEpisodes ep_idx_addComputed)
  have f: "\<forall>k. Suc k < length ?eps \<longrightarrow> ep_date (?eps ! k) \<le> ep_date (?eps ! Suc k)"
  proof (intro allI impI)
    fix k assume k: "Suc k < length ?eps"
    from c have "map ep_date ?eps ! k \<le> map ep_date ?eps ! Suc k"
      using k by (intro sorted_nth_mono) simp_all
    with k show "ep_date (?eps ! k) \<le> ep_date (?eps ! Suc k)" by simp
  qed
  from a b c d e f show ?thesis by blast
qed

theorem normalizer_sorted_dense_witness:
  "length (loadEpisodes demoHost demoRaw) = 4
   \<and> length (filter (\<lambda>e. parseDate demoHost (e_d e) \<noteq> None) demoRaw) = 4
   \<and> map ep_title (loadEpisodes demoHost demoRaw) =
       [''First'', ''Second'', ''Second again'', ''Third'']
   \<and> ep_idx (loadEpisodes demoHost demoRaw ! 2) = 2
   \<and> ep_date (loadEpisodes demoHost demoRaw ! 1) \<le> ep_date (loadEpisodes demoHost demoRaw ! 2)"
proof -
  have len: "length (loadEpisodes demoHost demoRaw) = 4"
    using arg_cong [OF demo_loadEpisodes, of length] by simp
  have flt: "length (filter (\<lambda>e. parseDate demoHost (e_d e) \<noteq> None) demoRaw) = 4"
    using normalizer_sorted_dense [of demoHost demoRaw] len by simp
  have idx: "ep_idx (loadEpisodes demoHost demoRaw ! 2) = 2"
    using normalizer_sorted_dense [of demoHost demoRaw] len by simp
  have ord: "ep_date (loadEpisodes demoHost demoRaw ! 1) \<le> ep_date (loadEpisodes demoHost demoRaw ! 2)"
  proof -
    have "Suc 1 < length (loadEpisodes demoHost demoRaw)" using len by simp
    then have "ep_date (loadEpisodes demoHost demoRaw ! 1) \<le> ep_date (loadEpisodes demoHost demoRaw ! Suc 1)"
      using normalizer_sorted_dense [of demoHost demoRaw] by blast
    then show ?thesis by (simp add: numeral_2_eq_2)
  qed
  from len flt demo_loadEpisodes idx ord show ?thesis by blast
qed

section \<open>The cross-reference indexer\<close>

lemma sorted_wrt_snoc_less:
  "xs \<noteq> [] \<Longrightarrow> sorted_wrt (<) xs \<Longrightarrow> last xs < k \<Longrightarrow> sorted_wrt (<) (xs @ [k])"
  for k :: nat
proof -
  assume ne: "xs \<noteq> []" and s: "sorted_wrt (<) xs" and l: "last xs < k"
  have "\<forall>x\<in>set xs. x \<le> last xs"
    using s ne by (induction xs) (auto simp: less_imp_le)
  with l have "\<forall>x\<in>set xs. x < k" by auto
  with s show ?thesis by (simp add: sorted_wrt_append)
qed

lemma visitGuest_inv:
  assumes "mapInv k seen m" and "g \<notin> seen"
  shows "mapInv k (insert g seen) (visitGuest k m g)"
proof (cases "map_of m g")
  case None
  then show ?thesis
    using assms
    by (auto simp: mapInv_def visitGuest_def Let_def AList.update_conv' AList.distinct_update goodEntry_def)
next
  case (Some e)
  then have "goodEntry e" and "last (ent_episodes e) < k"
    using assms by (auto simp: mapInv_def)
  then have "goodEntry (e \<lparr> ent_episodes := ent_episodes e @ [k], lastIdx := k \<rparr>)"
    by (auto simp: goodEntry_def sorted_wrt_snoc_less)
  then show ?thesis
    using assms Some
    by (auto simp: mapInv_def visitGuest_def Let_def AList.update_conv' AList.distinct_update)
qed

lemma visitCharacter_inv:
  assumes "mapInv k seen m" and "c \<notin> seen"
  shows "mapInv k (insert c seen) (visitCharacter k gs m c)"
proof (cases "map_of m c")
  case None
  then show ?thesis
    using assms
    by (auto simp: mapInv_def visitCharacter_def Let_def AList.update_conv' AList.distinct_update goodEntry_def)
next
  case (Some e)
  then have "goodEntry e" and "last (ent_episodes e) < k"
    using assms by (auto simp: mapInv_def)
  then have "goodEntry (e \<lparr> ent_episodes := ent_episodes e @ [k], lastIdx := k,
       ent_guests := map_option (\<lambda>s. foldl setAdd s gs) (ent_guests e) \<rparr>)"
    by (auto simp: goodEntry_def sorted_wrt_snoc_less)
  then show ?thesis
    using assms Some
    by (auto simp: mapInv_def visitCharacter_def Let_def AList.update_conv' AList.distinct_update)
qed

lemma foldl_visit_inv:
  assumes step: "\<And>seen m x. mapInv k seen m \<Longrightarrow> x \<notin> seen \<Longrightarrow> mapInv k (insert x seen) (f m x)"
  shows "mapInv k seen m \<Longrightarrow> distinct xs \<Longrightarrow> set xs \<inter> seen = {} \<Longrightarrow>
     mapInv k (seen \<union> set xs) (foldl f m xs)"
proof (induction xs arbitrary: seen m)
  case Nil
  then show ?case by simp
next
  case (Cons x xs)
  have "mapInv k (insert x seen) (f m x)" using Cons.prems by (intro step) auto
  moreover have "distinct xs" "set xs \<inter> insert x seen = {}" using Cons.prems by auto
  ultimately have "mapInv k (insert x seen \<union> set xs) (foldl f (f m x) xs)"
    by (rule Cons.IH)
  then show ?case by simp
qed

lemma mapInv_next: "mapInv k seen m \<Longrightarrow> mapInv (Suc k) {} m"
  by (auto simp: mapInv_def split: if_splits) (metis le_imp_less_Suc less_SucI)+

lemma buildMaps_inv:
  "mapInv k {} gm \<Longrightarrow> mapInv k {} cm \<Longrightarrow>
   \<forall>ep\<in>set eps. distinct (ep_guests ep) \<and> distinct (ep_characters ep) \<Longrightarrow>
   mapInv (k + length eps) {} (fst (buildMaps k eps (gm, cm))) \<and>
   mapInv (k + length eps) {} (snd (buildMaps k eps (gm, cm)))"
proof (induction eps arbitrary: k gm cm)
  case Nil
  then show ?case by simp
next
  case (Cons ep eps)
  have g: "mapInv (Suc k) {} (foldl (visitGuest k) gm (ep_guests ep))"
    using foldl_visit_inv [of k "visitGuest k" "{}" gm "ep_guests ep"] Cons.prems
    by (auto intro: mapInv_next visitGuest_inv)
  have c: "mapInv (Suc k) {} (foldl (visitCharacter k (ep_guests ep)) cm (ep_characters ep))"
    using foldl_visit_inv [of k "visitCharacter k (ep_guests ep)" "{}" cm "ep_characters ep"] Cons.prems
    by (auto intro: mapInv_next visitCharacter_inv)
  from Cons.IH [OF g c] Cons.prems show ?case by simp
qed

lemma hd_Min_sorted: "xs \<noteq> [] \<Longrightarrow> sorted_wrt (<) xs \<Longrightarrow> hd xs = Min (set xs)"
  for xs :: "nat list"
  by (cases xs) (auto intro!: Min_eqI [symmetric] simp: less_imp_le)

lemma last_Max_sorted: "xs \<noteq> [] \<Longrightarrow> sorted_wrt (<) xs \<Longrightarrow> last xs = Max (set xs)"
  for xs :: "nat list"
proof -
  assume ne: "xs \<noteq> []" and s: "sorted_wrt (<) xs"
  have "\<forall>x\<in>set xs. x \<le> last xs"
    using s ne by (induction xs) (auto simp: less_imp_le)
  then show ?thesis using ne by (intro Max_eqI [symmetric]) auto
qed

lemma set_foldl_setAdd: "set (foldl setAdd s gs) = set s \<union> set gs"
  by (induction gs arbitrary: s) (auto simp: setAdd_def)

lemma visitCharacter_played:
  assumes "playedInv all m" and "k < length all"
  shows "playedInv all (visitCharacter k (ep_guests (all ! k)) m c)"
proof (cases "map_of m c")
  case None
  then show ?thesis
    using assms
    by (auto simp: playedInv_def visitCharacter_def Let_def AList.update_conv' AList.distinct_update
        set_foldl_setAdd)
next
  case (Some e)
  from assms(1) have inv: "\<forall>key e. map_of m key = Some e \<longrightarrow>
        (\<exists>gs. ent_guests e = Some gs \<and>
              set gs = (\<Union>j\<in>set (ent_episodes e). set (ep_guests (all ! j)))) \<and>
        (\<forall>j\<in>set (ent_episodes e). j < length all)"
    unfolding playedInv_def by blast
  note old = inv [rule_format, OF Some]
  from old obtain gs where gs: "ent_guests e = Some gs"
      "set gs = (\<Union>j\<in>set (ent_episodes e). set (ep_guests (all ! j)))"
    by (elim conjE exE)
  from old have bound: "\<forall>j\<in>set (ent_episodes e). j < length all"
    by (elim conjE)
  let ?e' = "e \<lparr> ent_episodes := ent_episodes e @ [k], lastIdx := k,
      ent_guests := map_option (\<lambda>s. foldl setAdd s (ep_guests (all ! k))) (ent_guests e) \<rparr>"
  have eq: "visitCharacter k (ep_guests (all ! k)) m c = AList.update c ?e' m"
    using Some by (simp add: visitCharacter_def)
  have new: "(\<exists>gs'. ent_guests ?e' = Some gs' \<and>
              set gs' = (\<Union>j\<in>set (ent_episodes ?e'). set (ep_guests (all ! j)))) \<and>
        (\<forall>j\<in>set (ent_episodes ?e'). j < length all)"
    using gs bound assms(2) by (simp add: set_foldl_setAdd Un_commute)
  have d: "distinct (map fst (AList.update c ?e' m))"
    using assms(1) by (simp add: playedInv_def AList.distinct_update)
  show ?thesis
    unfolding eq playedInv_def AList.update_conv'
  proof (intro conjI allI impI)
    show "distinct (map fst (AList.update c ?e' m))" by (rule d)
  next
    fix key e0
    assume a: "((map_of m)(c \<mapsto> ?e')) key = Some e0"
    then have cases: "e0 = ?e' \<or> map_of m key = Some e0" by (simp split: if_splits)
    have "(\<exists>gs. ent_guests e0 = Some gs \<and>
        set gs = (\<Union>j\<in>set (ent_episodes e0). set (ep_guests (all ! j)))) \<and>
        (\<forall>j\<in>set (ent_episodes e0). j < length all)"
      using cases
    proof
      assume e0: "e0 = ?e'"
      show ?thesis unfolding e0 by (rule new)
    next
      assume "map_of m key = Some e0"
      then show ?thesis by (rule inv [rule_format])
    qed
    then show "\<exists>gs. ent_guests e0 = Some gs \<and>
        set gs = (\<Union>j\<in>set (ent_episodes e0). set (ep_guests (all ! j)))"
      and "\<forall>j\<in>set (ent_episodes e0). j < length all"
      by (rule conjunct1, rule conjunct2)
  qed
qed

lemma foldl_visitCharacter_played:
  "playedInv all m \<Longrightarrow> k < length all \<Longrightarrow>
   playedInv all (foldl (visitCharacter k (ep_guests (all ! k))) m cs)"
  by (induction cs arbitrary: m) (simp_all add: visitCharacter_played)

lemma buildMaps_played:
  "playedInv (pre @ eps) cm \<Longrightarrow> length pre = k \<Longrightarrow>
   playedInv (pre @ eps) (snd (buildMaps k eps (gm, cm)))"
proof (induction eps arbitrary: pre k gm cm)
  case Nil
  then show ?case by simp
next
  case (Cons ep eps)
  let ?all = "pre @ ep # eps"
  have nth: "?all ! k = ep" using Cons.prems by (simp add: nth_append)
  have k: "k < length ?all" using Cons.prems by simp
  have "playedInv ?all (foldl (visitCharacter k (ep_guests (?all ! k))) cm (ep_characters ep))"
    using Cons.prems(1) k by (rule foldl_visitCharacter_played)
  then have step: "playedInv ((pre @ [ep]) @ eps) (foldl (visitCharacter k (ep_guests ep)) cm (ep_characters ep))"
    by (simp add: nth)
  have "length (pre @ [ep]) = Suc k" using Cons.prems by simp
  from Cons.IH [OF step this] show ?case by simp
qed

lemma attachImages_entry:
  "(key, e') \<in> set (attachImages h im m) \<Longrightarrow>
     \<exists>e. (key, e) \<in> set m \<and> e' = e \<lparr> ent_imageUrl := lookupOrNull h im key \<rparr>"
  by (auto simp: attachImages_def)

lemma mapInv_empty: "mapInv 0 {} []"
  by (simp add: mapInv_def)

lemma playedInv_empty: "playedInv all []"
  by (simp add: playedInv_def)

lemma goodEntry_image: "goodEntry (e \<lparr> ent_imageUrl := u \<rparr>) = goodEntry e"
  by (simp add: goodEntry_def)

lemma mapInv_entry: "mapInv k seen m \<Longrightarrow> (key, e) \<in> set m \<Longrightarrow> goodEntry e"
  by (simp add: mapInv_def)

lemma goodEntry_min_max:
  "goodEntry e \<Longrightarrow> ent_episodes e \<noteq> [] \<and> sorted_wrt (<) (ent_episodes e) \<and> distinct (ent_episodes e)
     \<and> firstIdx e = Min (set (ent_episodes e)) \<and> lastIdx e = Max (set (ent_episodes e))"
  by (simp add: goodEntry_def hd_Min_sorted last_Max_sorted strict_sorted_iff)

lemmas demo_defs = asciiLower_def asciiLowerChar_def processData_def demoData_def loadEpisodes_def sortedEpisodes_def List.map_filter_def mapEpisode_def
      parseDate_def demoHost_def demoRaw_def orEmpty_def orNull_def addComputed_def
      episode.defs enumerate_eq_zip upt_rec visitGuest_def visitCharacter_def Let_def attachImages_def lookupOrNull_def orEmptyObject_def setAdd_def


lemma demo_guestMap:
  "map (\<lambda>(key, e). (key, ent_episodes e, firstIdx e, lastIdx e))
     (guestMap (processData demoHost demoData)) =
   [(''A'', [0, 3], 0, 3), (''B'', [1], 1, 1), (''C'', [3], 3, 3)]"
  by (simp add: demo_defs)

lemma demo_characterMap:
  "map (\<lambda>(key, e). (key, ent_episodes e, firstIdx e, lastIdx e, ent_guests e))
     (characterMap (processData demoHost demoData)) =
   [(''X'', [0, 3], 0, 3, Some [''A'', ''C'']), (''Y'', [0, 2], 0, 2, Some [''A''])]"
  by (simp add: demo_defs)

lemma demo_distinct:
  "\<forall>ep\<in>set (d_episodes (processData demoHost demoData)).
     distinct (ep_guests ep) \<and> distinct (ep_characters ep)"
  by (simp add: demo_defs)

text \<open>
  Claim C2. When no name occurs twice in the guest list or in the character list of one
  episode, every entry of \<open>guestMap\<close> and of \<open>characterMap\<close> has a list of episode indices
  that is strictly ascending (hence without duplicates), \<open>firstIdx\<close> is the minimum of that
  list and \<open>lastIdx\<close> its maximum.
\<close>

theorem indexer_entries_ascending:
  assumes "\<forall>ep\<in>set (d_episodes (processData h raw)). distinct (ep_guests ep) \<and> distinct (ep_characters ep)"
  shows "\<forall>(key, e) \<in> set (guestMap (processData h raw)) \<union> set (characterMap (processData h raw)).
     ent_episodes e \<noteq> [] \<and> sorted_wrt (<) (ent_episodes e) \<and> distinct (ent_episodes e)
     \<and> firstIdx e = Min (set (ent_episodes e)) \<and> lastIdx e = Max (set (ent_episodes e))"
proof -
  let ?eps = "loadEpisodes h (raw_episodes raw)"
  let ?maps = "buildMaps 0 ?eps ([], [])"
  have d: "\<forall>ep\<in>set ?eps. distinct (ep_guests ep) \<and> distinct (ep_characters ep)"
    using assms by (simp add: processData_def Let_def)
  have inv: "mapInv (0 + length ?eps) {} (fst ?maps) \<and> mapInv (0 + length ?eps) {} (snd ?maps)"
    using mapInv_empty mapInv_empty d by (rule buildMaps_inv)
  have "goodEntry e" if "(key, e) \<in> set (guestMap (processData h raw)) \<union> set (characterMap (processData h raw))"
    for key e
  proof -
    from that obtain im e0 where "(key, e0) \<in> set (fst ?maps) \<union> set (snd ?maps)"
      and e: "e = e0 \<lparr> ent_imageUrl := lookupOrNull h im key \<rparr>"
      by (auto simp: processData_def Let_def dest!: attachImages_entry)
    then have "goodEntry e0" using inv by (auto dest: mapInv_entry)
    then show ?thesis by (simp add: e goodEntry_image)
  qed
  then show ?thesis by (auto dest!: goodEntry_min_max)
qed

theorem indexer_entries_ascending_witness:
  "list_all (\<lambda>ep. distinct (ep_guests ep) \<and> distinct (ep_characters ep))
     (d_episodes (processData demoHost demoData))
   \<and> map (\<lambda>(key, e). (key, ent_episodes e, firstIdx e, lastIdx e))
        (guestMap (processData demoHost demoData)) =
      [(''A'', [0, 3], 0, 3), (''B'', [1], 1, 1), (''C'', [3], 3, 3)]
   \<and> list_all (\<lambda>(key, e).
        ent_episodes e \<noteq> [] \<and> sorted_wrt (<) (ent_episodes e) \<and> distinct (ent_episodes e)
        \<and> firstIdx e = Min (set (ent_episodes e)) \<and> lastIdx e = Max (set (ent_episodes e)))
      (guestMap (processData demoHost demoData) @ characterMap (processData demoHost demoData))"
  unfolding list_all_iff set_append
  using demo_distinct demo_guestMap indexer_entries_ascending [OF demo_distinct]
  by (intro conjI)

text \<open>
  Claim C8. For every entry of \<open>characterMap\<close>, the set \<open>guests\<close> holds exactly the names
  that occur in the guest list of some episode whose index is in the entry's list of
  episodes; these indices are positions of the episode sequence.
\<close>

theorem character_playedBy_union:
  "\<forall>(key, e) \<in> set (characterMap (processData h raw)).
     (\<exists>gs. ent_guests e = Some gs \<and>
        set gs = (\<Union>j\<in>set (ent_episodes e). set (ep_guests (d_episodes (processData h raw) ! j))))
     \<and> (\<forall>j\<in>set (ent_episodes e). j < length (d_episodes (processData h raw)))"
proof -
  let ?eps = "loadEpisodes h (raw_episodes raw)"
  let ?maps = "buildMaps 0 ?eps ([], [])"
  have "playedInv ([] @ ?eps) (snd (buildMaps 0 ?eps ([], [])))"
    by (rule buildMaps_played) (simp_all add: playedInv_empty)
  then have inv: "playedInv ?eps (snd ?maps)" by simp
  have eps: "d_episodes (processData h raw) = ?eps"
    by (simp add: processData_def Let_def)
  have "(\<exists>gs. ent_guests e = Some gs \<and>
        set gs = (\<Union>j\<in>set (ent_episodes e). set (ep_guests (?eps ! j))))
     \<and> (\<forall>j\<in>set (ent_episodes e). j < length ?eps)"
    if "(key, e) \<in> set (characterMap (processData h raw))" for key e
  proof -
    from that obtain im e0 where in0: "(key, e0) \<in> set (snd ?maps)"
      and e: "e = e0 \<lparr> ent_imageUrl := lookupOrNull h im key \<rparr>"
      by (auto simp: processData_def Let_def dest!: attachImages_entry)
    from inv in0 have "map_of (snd ?maps) key = Some e0"
      by (simp add: playedInv_def)
    with inv have "(\<exists>gs. ent_guests e0 = Some gs \<and>
        set gs = (\<Union>j\<in>set (ent_episodes e0). set (ep_guests (?eps ! j))))
     \<and> (\<forall>j\<in>set (ent_episodes e0). j < length ?eps)"
      unfolding playedInv_def by blast
    then show ?thesis by (simp add: e)
  qed
  then show ?thesis unfolding eps by blast
qed

theorem character_playedBy_union_witness:
  "map (\<lambda>(key, e). (key, ent_episodes e, firstIdx e, lastIdx e, ent_guests e))
     (characterMap (processData demoHost demoData)) =
     [(''X'', [0, 3], 0, 3, Some [''A'', ''C'']), (''Y'', [0, 2], 0, 2, Some [''A''])]
   \<and> list_all (\<lambda>(key, e).
       (\<exists>gs. ent_guests e = Some gs \<and>
          set gs = (\<Union>j\<in>set (ent_episodes e).
                     set (ep_guests (d_episodes (processData demoHost demoData) ! j))))
       \<and> list_all (\<lambda>j. j < length (d_episodes (processData demoHost demoData))) (ent_episodes e))
     (characterMap (processData demoHost demoData))"
  unfolding list_all_iff
  using demo_characterMap character_playedBy_union [of demoHost demoData]
  by (intro conjI)

section \<open>The live-episode classifier\<close>

lemma char_eq_code: "(c = d) = (of_char c = (of_char d :: nat))"
  by (simp add: of_char_eq_iff)

lemma of_char_asciiLowerChar:
  "(of_char (asciiLowerChar ch) :: nat) =
     (if 65 \<le> (of_char ch :: nat) \<and> (of_char ch :: nat) \<le> 90 then of_char ch + 32 else of_char ch)"
proof -
  have "(of_char ch :: nat) < 256" by simp
  then show ?thesis
    by (simp add: asciiLowerChar_def less_eq_char_def of_char_of)
qed

lemma ciMatch_lower:
  assumes "CHR ''a'' \<le> p" and "p \<le> CHR ''z''"
  shows "ciMatch p ch = (asciiLowerChar ch = p)"
proof -
  have p: "97 \<le> (of_char p :: nat)" "(of_char p :: nat) \<le> 122"
    using assms by (simp_all add: less_eq_char_def)
  show ?thesis
    unfolding ciMatch_def char_eq_code [of ch p] char_eq_code [of "asciiLowerChar ch" p]
      of_char_asciiLowerChar
    using p by auto
qed

lemma isWordChar_lower:
  assumes "CHR ''a'' \<le> p" and "p \<le> CHR ''z''" and "asciiLowerChar ch = p"
  shows "isWordChar ch"
proof -
  have p: "97 \<le> (of_char p :: nat)" "(of_char p :: nat) \<le> 122"
    using assms by (simp_all add: less_eq_char_def)
  have "(of_char (asciiLowerChar ch) :: nat) = of_char p" using assms by simp
  then show ?thesis
    unfolding of_char_asciiLowerChar isWordChar_def less_eq_char_def
    using p by (auto split: if_splits)
qed

lemma ciPrefix_lower:
  "\<forall>p\<in>set ps. CHR ''a'' \<le> p \<and> p \<le> CHR ''z'' \<Longrightarrow>
   ciPrefix ps s = (\<exists>w post. s = w @ post \<and> asciiLower w = ps)"
proof (induction ps s rule: ciPrefix.induct)
  case (1 s)
  then show ?case by (simp add: asciiLower_def)
next
  case (2 p ps)
  then show ?case by (simp add: asciiLower_def)
next
  case (3 p ps ch s)
  have m: "ciMatch p ch = (asciiLowerChar ch = p)"
    using 3 by (intro ciMatch_lower) simp_all
  have ih: "ciPrefix ps s = (\<exists>w post. s = w @ post \<and> asciiLower w = ps)"
    using 3 by simp
  show ?case
  proof
    assume "ciPrefix (p # ps) (ch # s)"
    then obtain w post where "asciiLowerChar ch = p" "s = w @ post" "asciiLower w = ps"
      using m ih by auto
    then have "ch # s = (ch # w) @ post \<and> asciiLower (ch # w) = p # ps"
      by (simp add: asciiLower_def)
    then show "\<exists>w post. ch # s = w @ post \<and> asciiLower w = p # ps" by blast
  next
    assume "\<exists>w post. ch # s = w @ post \<and> asciiLower w = p # ps"
    then obtain w post where w: "ch # s = w @ post" "asciiLower w = p # ps" by blast
    then obtain w' where w': "w = ch # w'" "asciiLowerChar ch = p" "asciiLower w' = ps" "s = w' @ post"
      by (cases w) (auto simp: asciiLower_def)
    then show "ciPrefix (p # ps) (ch # s)" using m ih by auto
  qed
qed

lemma live_word:
  assumes "asciiLower w = ''live''"
  obtains c1 c2 c3 c4 where "w = [c1, c2, c3, c4]" "isWordChar c1" "isWordChar c4"
proof -
  from assms obtain c1 c2 c3 c4 where w: "w = [c1, c2, c3, c4]"
      and l: "asciiLowerChar c1 = CHR ''l''" "asciiLowerChar c4 = CHR ''e''"
    by (auto simp: asciiLower_def map_eq_Cons_conv)
  have "isWordChar c1" by (rule isWordChar_lower [OF _ _ l(1)]) (simp_all add: less_eq_char_def)
  moreover have "isWordChar c4" by (rule isWordChar_lower [OF _ _ l(2)]) (simp_all add: less_eq_char_def)
  ultimately show ?thesis using w that by blast
qed

lemma liveAt_iff:
  "liveAt prev s = (\<exists>w post. s = w @ post \<and> asciiLower w = ''live'' \<and> \<not> wordOpt prev \<and>
      (post = [] \<or> \<not> isWordChar (hd post)))"
proof -
  have pre: "ciPrefix ''live'' s = (\<exists>w post. s = w @ post \<and> asciiLower w = ''live'')"
    by (rule ciPrefix_lower) (simp add: less_eq_char_def)
  have bd: "(wordBoundary prev (headOpt (w @ post)) \<and>
             wordBoundary (headOpt (drop 3 (w @ post))) (headOpt (drop 4 (w @ post)))) =
            (\<not> wordOpt prev \<and> (post = [] \<or> \<not> isWordChar (hd post)))"
    if "asciiLower w = ''live''" for w post
  proof -
    from that obtain c1 c2 c3 c4 where "w = [c1, c2, c3, c4]" "isWordChar c1" "isWordChar c4"
      by (rule live_word)
    then show ?thesis
      by (cases post) (auto simp: wordBoundary_def headOpt_def wordOpt_def split: option.splits)
  qed
  show ?thesis
    unfolding liveAt_def pre using bd by blast
qed

lemma liveSearch_iff:
  "liveSearch prev s = (\<exists>pre w post. s = pre @ w @ post \<and> asciiLower w = ''live'' \<and>
      \<not> wordOpt (if pre = [] then prev else Some (last pre)) \<and>
      (post = [] \<or> \<not> isWordChar (hd post)))"
proof (induction s arbitrary: prev)
  case Nil
  show ?case by (simp add: liveAt_iff)
next
  case (Cons ch s)
  let ?R = "\<lambda>prev s pre w post. s = pre @ w @ post \<and> asciiLower w = ''live'' \<and>
      \<not> wordOpt (if pre = [] then prev else Some (last pre)) \<and>
      (post = [] \<or> \<not> isWordChar (hd post))"
  show ?case
  proof
    assume "liveSearch prev (ch # s)"
    then consider "liveAt prev (ch # s)" | "liveSearch (Some ch) s" by auto
    then show "\<exists>pre w post. ?R prev (ch # s) pre w post"
    proof cases
      case 1
      then obtain w post where "?R prev (ch # s) [] w post"
        unfolding liveAt_iff by auto
      then show ?thesis by blast
    next
      case 2
      then obtain pre w post where r: "?R (Some ch) s pre w post"
        unfolding Cons.IH by blast
      then have "?R prev (ch # s) (ch # pre) w post" by auto
      then show ?thesis by blast
    qed
  next
    assume "\<exists>pre w post. ?R prev (ch # s) pre w post"
    then obtain pre w post where r: "?R prev (ch # s) pre w post" by blast
    show "liveSearch prev (ch # s)"
    proof (cases pre)
      case Nil
      with r have "liveAt prev (ch # s)" unfolding liveAt_iff by auto
      then show ?thesis by simp
    next
      case (Cons a pre')
      with r have "?R (Some ch) s pre' w post" by (auto split: if_splits)
      then have "liveSearch (Some ch) s" unfolding Cons.IH by blast
      then show ?thesis by simp
    qed
  qed
qed

lemma wordOpt_last:
  "(\<not> wordOpt (if pre = [] then None else Some (last pre))) = (pre = [] \<or> \<not> isWordChar (last pre))"
  by (simp add: wordOpt_def)

lemma liveTitleTest_iff: "liveTitleTest title = standaloneLive title"
  unfolding liveTitleTest_def liveSearch_iff standaloneLive_def wordOpt_last ..

lemma numericNumberTest_iff: "numericNumberTest s = pureDecimal s"
proof
  assume n: "numericNumberTest s"
  let ?ds = "takeWhile isDigit s" and ?rest = "dropWhile isDigit s"
  have s: "s = ?ds @ ?rest" by simp
  have ds: "?ds \<noteq> []" "list_all isDigit ?ds"
    using n by (auto simp: numericNumberTest_def Let_def list_all_iff dest: set_takeWhileD)
  show "pureDecimal s"
  proof (cases ?rest)
    case Nil
    with s have "s = ?ds" by simp
    with ds show ?thesis unfolding pureDecimal_def by blast
  next
    case (Cons ch fs)
    with n have "ch = CHR ''.''" "fs \<noteq> []" "list_all isDigit fs"
      by (auto simp: numericNumberTest_def Let_def)
    moreover from s Cons have "s = ?ds @ ch # fs" by simp
    ultimately show ?thesis using ds unfolding pureDecimal_def by blast
  qed
next
  assume "pureDecimal s"
  then obtain ds where ds: "ds \<noteq> []" "list_all isDigit ds"
    and c: "s = ds \<or> (\<exists>fs. fs \<noteq> [] \<and> list_all isDigit fs \<and> s = ds @ CHR ''.'' # fs)"
    unfolding pureDecimal_def by blast
  have nd: "\<not> isDigit CHR ''.''" by (simp add: isDigit_def less_eq_char_def)
  from c show "numericNumberTest s"
  proof
    assume "s = ds"
    with ds show ?thesis
      by (simp add: numericNumberTest_def Let_def list_all_iff takeWhile_eq_all_conv [THEN iffD2]
          dropWhile_eq_Nil_conv [THEN iffD2])
  next
    assume "\<exists>fs. fs \<noteq> [] \<and> list_all isDigit fs \<and> s = ds @ CHR ''.'' # fs"
    then obtain fs where fs: "fs \<noteq> []" "list_all isDigit fs" "s = ds @ CHR ''.'' # fs" by blast
    have "takeWhile isDigit s = ds" "dropWhile isDigit s = CHR ''.'' # fs"
      using ds fs nd by (simp_all add: list_all_iff takeWhile_append2 dropWhile_append2)
    with ds fs show ?thesis by (simp add: numericNumberTest_def)
  qed
qed

lemmas live_eval = isLiveEpisode_def liveTitleTest_def liveAt_def wordBoundary_def headOpt_def
  ciMatch_def isWordChar_def isDigit_def numericNumberTest_def less_eq_char_def Let_def

lemma isLiveEpisode_iff:
  "isLiveEpisode ep =
     ((\<exists>s. ep_number ep = Some s \<and> s \<noteq> [] \<and> \<not> pureDecimal s) \<or> standaloneLive (ep_title ep))"
  by (auto simp: isLiveEpisode_def Let_def numericNumberTest_iff liveTitleTest_iff split: option.splits)

text \<open>
  Claim C3, as stated, fails twice: an empty number does not match the pattern, yet the
  episode is not live (the check on the number is guarded by the number being truthy);
  and the title \<open>I'll Always Live Here\<close> has \<open>Live\<close> as a word of its own, so the episode
  is live.
\<close>

theorem isLive_claim_counterexample:
  "isLiveEpisode liveHereEpisode \<and>
   ep_number emptyNumberEpisode = Some [] \<and> \<not> pureDecimal [] \<and> \<not> isLiveEpisode emptyNumberEpisode"
proof -
  have "isLiveEpisode liveHereEpisode"
    by (simp add: liveHereEpisode_def live_eval)
  moreover have "\<not> isLiveEpisode emptyNumberEpisode"
    by (simp add: emptyNumberEpisode_def live_eval)
  moreover have "\<not> pureDecimal []"
    by (simp add: numericNumberTest_iff [symmetric] numericNumberTest_def)
  moreover have "ep_number emptyNumberEpisode = Some []"
    by (simp add: emptyNumberEpisode_def)
  ultimately show ?thesis by blast
qed

text \<open>
  Claim C3, amended. An episode is live if and only if its number is present, not empty and
  not a pure integer or decimal, or its title contains the word \<open>live\<close> on its own, in any
  case. The number \<open>BO2013.1\<close> makes an episode live; number \<open>145\<close> with the title
  \<open>The Best of CBB\<close> is not live; the titles \<open>Live from Austin\<close> and
  \<open>I'll Always Live Here\<close> are live, whatever the number.
\<close>

theorem isLive_classifier:
  "isLiveEpisode ep =
     ((\<exists>s. ep_number ep = Some s \<and> s \<noteq> [] \<and> \<not> pureDecimal s) \<or> standaloneLive (ep_title ep))
   \<and> isLiveEpisode (ep \<lparr> ep_number := Some ''BO2013.1'' \<rparr>)
   \<and> \<not> isLiveEpisode (ep \<lparr> ep_number := Some ''145'', ep_title := ''The Best of CBB'' \<rparr>)
   \<and> isLiveEpisode (ep \<lparr> ep_title := ''Live from Austin'' \<rparr>)
   \<and> isLiveEpisode (ep \<lparr> ep_title := ''I'll Always Live Here'' \<rparr>)"
proof (intro conjI)
  show "isLiveEpisode ep =
     ((\<exists>s. ep_number ep = Some s \<and> s \<noteq> [] \<and> \<not> pureDecimal s) \<or> standaloneLive (ep_title ep))"
    by (rule isLiveEpisode_iff)
  show "isLiveEpisode (ep \<lparr> ep_number := Some ''BO2013.1'' \<rparr>)"
    by (simp add: live_eval)
  show "\<not> isLiveEpisode (ep \<lparr> ep_number := Some ''145'', ep_title := ''The Best of CBB'' \<rparr>)"
    by (simp add: live_eval)
  show "isLiveEpisode (ep \<lparr> ep_title := ''Live from Austin'' \<rparr>)"
    by (simp add: live_eval)
  show "isLiveEpisode (ep \<lparr> ep_title := ''I'll Always Live Here'' \<rparr>)"
    by (simp add: live_eval)
qed

theorem isLive_classifier_witness:
  "isLiveEpisode liveAustinEpisode \<and> \<not> pureDecimal ''BO2013.1'' \<and> pureDecimal ''312''
   \<and> standaloneLive ''Live from Austin'' \<and> \<not> standaloneLive ''The Best of CBB''"
proof -
  have a: "isLiveEpisode liveAustinEpisode"
    by (simp add: liveAustinEpisode_def live_eval)
  have n: "\<not> isLiveEpisode (liveAustinEpisode \<lparr> ep_number := Some ''145'', ep_title := ''The Best of CBB'' \<rparr>)"
    using isLive_classifier [of liveAustinEpisode] by blast
  have b: "isLiveEpisode (liveAustinEpisode \<lparr> ep_number := Some ''BO2013.1'', ep_title := ''The Best of CBB'' \<rparr>)"
    by (simp add: live_eval)
  have p: "pureDecimal ''312''"
    using isLive_classifier [of "liveAustinEpisode \<lparr> ep_title := ''The Best of CBB'' \<rparr>"]
    by (simp add: liveAustinEpisode_def live_eval)
  have l: "standaloneLive ''Live from Austin''"
    using isLive_classifier [of liveAustinEpisode] a p by (simp add: liveAustinEpisode_def)
  have nl: "\<not> standaloneLive ''The Best of CBB''"
    using isLive_classifier [of "liveAustinEpisode \<lparr> ep_number := Some ''145'', ep_title := ''The Best of CBB'' \<rparr>"] n
    by simp
  have np: "\<not> pureDecimal ''BO2013.1''"
    using isLive_classifier [of "liveAustinEpisode \<lparr> ep_number := Some ''BO2013.1'', ep_title := ''The Best of CBB'' \<rparr>"] b nl
    by simp
  from a np p l nl show ?thesis by blast
qed

text \<open>
  Claim C10. When the number of an episode is absent or the empty string, the check on the
  number does not fire: the episode is live exactly when its title contains the word
  \<open>live\<close> on its own, although the empty string is not a pure integer or decimal.
\<close>

theorem isLive_falsy_number:
  assumes "ep_number ep = None \<or> ep_number ep = Some []"
  shows "isLiveEpisode ep = liveTitleTest (ep_title ep)
     \<and> isLiveEpisode ep = standaloneLive (ep_title ep)
     \<and> \<not> numericNumberTest [] \<and> \<not> pureDecimal []"
proof -
  have "\<not> numericNumberTest []" by (simp add: numericNumberTest_def)
  moreover from this have "\<not> pureDecimal []" by (simp add: numericNumberTest_iff)
  moreover have "isLiveEpisode ep = liveTitleTest (ep_title ep)"
    using assms by (auto simp: isLiveEpisode_def Let_def)
  ultimately show ?thesis by (simp add: liveTitleTest_iff)
qed

theorem isLive_falsy_number_witness:
  "(ep_number emptyNumberEpisode = None \<or> ep_number emptyNumberEpisode = Some [])
   \<and> \<not> isLiveEpisode emptyNumberEpisode \<and> \<not> standaloneLive (ep_title emptyNumberEpisode)
   \<and> (ep_number liveNoNumberEpisode = None \<or> ep_number liveNoNumberEpisode = Some [])
   \<and> isLiveEpisode liveNoNumberEpisode \<and> standaloneLive (ep_title liveNoNumberEpisode)"
proof -
  have e: "ep_number emptyNumberEpisode = None \<or> ep_number emptyNumberEpisode = Some []"
    by (simp add: emptyNumberEpisode_def)
  have n: "ep_number liveNoNumberEpisode = None \<or> ep_number liveNoNumberEpisode = Some []"
    by (simp add: liveNoNumberEpisode_def)
  have "\<not> isLiveEpisode emptyNumberEpisode"
    by (simp add: emptyNumberEpisode_def live_eval)
  moreover have "isLiveEpisode liveNoNumberEpisode"
    by (simp add: liveNoNumberEpisode_def live_eval)
  ultimately show ?thesis
    using e n isLive_falsy_number [OF e] isLive_falsy_number [OF n] by blast
qed

section \<open>The statistics\<close>

lemma maxCPG_yearStep: "maxCharactersPerGuest (foldl yearStep st ys) = maxCharactersPerGuest st"
  by (induction ys arbitrary: st) (simp_all add: yearStep_def Let_def)

lemma maxCPG_episodeStep_zero:
  "num_guests ep = 0 \<Longrightarrow> maxCharactersPerGuest (episodeStep st ep) = maxCharactersPerGuest st"
  by (simp add: episodeStep_def Let_def)

lemma maxCPG_foldl:
  "maxCharactersPerGuest (foldl episodeStep st eps) =
     foldl js_max (maxCharactersPerGuest st)
       (map characters_per_guest (filter (\<lambda>ep. 0 < num_guests ep) eps))"
  by (induction eps arbitrary: st) (simp_all add: episodeStep_def Let_def)

lemma maxCPG_computeStats:
  "maxCharactersPerGuest (computeStats byYear eps) =
     foldl js_max (Finite 0) (map characters_per_guest (filter (\<lambda>ep. 0 < num_guests ep) eps))"
  by (simp add: computeStats_def maxCPG_foldl maxCPG_yearStep)

lemma foldl_js_max_Finite:
  "foldl js_max (Finite a) (map Finite qs) = Finite (Max (insert a (set qs)))"
proof (induction qs arbitrary: a)
  case Nil
  show ?case by simp
next
  case (Cons q qs)
  have "Max (insert (max a q) (set qs)) = Max (insert a (insert q (set qs)))"
    by (cases "set qs = {}") (simp_all add: max.assoc)
  with Cons show ?case by simp
qed

lemma loaded_fields:
  assumes "ep \<in> set (loadEpisodes h raw_eps)"
  shows "num_guests ep = length (ep_guests ep)"
    and "num_characters ep = length (ep_characters ep)"
    and "characters_per_guest ep = js_div (num_of_nat (num_characters ep)) (num_of_nat (num_guests ep))"
  using assms by (auto simp: loadEpisodes_def addComputed_def episode.defs)

lemma js_div_nat:
  "js_div (num_of_nat c) (num_of_nat g) =
     (if g = 0 then (if c = 0 then NaN else PosInf) else Finite (of_nat c / of_nat g))"
  by (simp add: num_of_nat_def)

lemma d_episodes_processData: "d_episodes (processData h raw) = loadEpisodes h (raw_episodes raw)"
  by (simp add: processData_def Let_def)

lemma d_stats_processData:
  "maxCharactersPerGuest (d_stats (processData h raw)) =
     foldl js_max (Finite 0) (map characters_per_guest
        (filter (\<lambda>ep. 0 < num_guests ep) (d_episodes (processData h raw))))"
  by (simp add: processData_def Let_def maxCPG_computeStats)

lemma maxCPG_loaded:
  "maxCharactersPerGuest (d_stats (processData h raw)) =
     Finite (Max (insert 0 ((\<lambda>ep. of_nat (num_characters ep) / of_nat (num_guests ep)) `
        {ep \<in> set (d_episodes (processData h raw)). 0 < num_guests ep})))"
proof -
  let ?eps = "filter (\<lambda>ep. 0 < num_guests ep) (d_episodes (processData h raw))"
  let ?q = "\<lambda>ep::loaded_episode. (of_nat (num_characters ep) / of_nat (num_guests ep) :: rat)"
  have "map characters_per_guest ?eps = map Finite (map ?q ?eps)"
    by (auto simp: d_episodes_processData loaded_fields(3) js_div_nat)
  then have "maxCharactersPerGuest (d_stats (processData h raw)) =
      Finite (Max (insert 0 (set (map ?q ?eps))))"
    by (simp only: d_stats_processData foldl_js_max_Finite)
  moreover have "set (map ?q ?eps) = ?q ` {ep \<in> set (d_episodes (processData h raw)). 0 < num_guests ep}"
    by auto
  ultimately show ?thesis by simp
qed

lemma base_color_zero:
  "m \<noteq> 0 \<Longrightarrow> getEpisodeBaseColor (Finite 0) (Finite m) = Hsl210 (Finite 85)"
  by (simp add: getEpisodeBaseColor_def)

lemma base_color_inf:
  "0 < m \<Longrightarrow> getEpisodeBaseColor PosInf (Finite m) = Hsl210 NegInf"
  by (simp add: getEpisodeBaseColor_def)

lemma base_color_nan:
  "m \<noteq> 0 \<Longrightarrow> getEpisodeBaseColor NaN (Finite m) = Hsl210 NaN"
  by (simp add: getEpisodeBaseColor_def)

text \<open>
  Claim C4, as stated, fails in its second half on a corpus whose maximum is 0:
  \<open>getEpisodeBaseColor\<close> returns the default colour before it reads the value, so in the mode
  \<open>chars-per-guest\<close> the cell of the episode without guests has exactly the colour that the
  value 0 has, the colour of the cell of the episode whose quotient is 0.
\<close>

theorem stats_zero_guest_colour_counterexample:
  "num_guests (d_episodes (processData demoHost zeroMaxData) ! 1) = 0
   \<and> characters_per_guest (d_episodes (processData demoHost zeroMaxData) ! 1) = PosInf
   \<and> characters_per_guest (d_episodes (processData demoHost zeroMaxData) ! 0) = Finite 0
   \<and> maxCharactersPerGuest (d_stats (processData demoHost zeroMaxData)) = Finite 0
   \<and> cellBackground perGuestState (d_stats (processData demoHost zeroMaxData))
        (d_episodes (processData demoHost zeroMaxData) ! 1) =
      getEpisodeBaseColor (Finite 0) (maxCharactersPerGuest (d_stats (processData demoHost zeroMaxData)))
   \<and> cellBackground perGuestState (d_stats (processData demoHost zeroMaxData))
        (d_episodes (processData demoHost zeroMaxData) ! 1) =
      cellBackground perGuestState (d_stats (processData demoHost zeroMaxData))
        (d_episodes (processData demoHost zeroMaxData) ! 0)"
proof (intro conjI)
  let ?d = "processData demoHost zeroMaxData"
  show "num_guests (d_episodes ?d ! 1) = 0" by code_simp
  show "characters_per_guest (d_episodes ?d ! 1) = PosInf" by code_simp
  show "characters_per_guest (d_episodes ?d ! 0) = Finite 0" by code_simp
  show "maxCharactersPerGuest (d_stats ?d) = Finite 0" by code_simp
  show "cellBackground perGuestState (d_stats ?d) (d_episodes ?d ! 1) =
      getEpisodeBaseColor (Finite 0) (maxCharactersPerGuest (d_stats ?d))" by code_simp
  show "cellBackground perGuestState (d_stats ?d) (d_episodes ?d ! 1) =
      cellBackground perGuestState (d_stats ?d) (d_episodes ?d ! 0)" by code_simp
qed

text \<open>
  Claim C4, amended. \<open>maxCharactersPerGuest\<close> is the maximum, starting from 0, of
  \<open>characters_per_guest\<close> over the episodes with \<open>num_guests > 0\<close> only, that is, of the
  quotients of the two lengths of these episodes; an episode without guests leaves the
  running maximum as it is. For such an episode \<open>characters_per_guest\<close> is \<open>Infinity\<close> or
  \<open>NaN\<close>, never 0. When the maximum is not 0, the colour computed from it has the lightness
  \<open>-Infinity\<close> or \<open>NaN\<close>, whereas the value 0 gives the lightness 85, so that in the mode
  \<open>chars-per-guest\<close> the cell of such an episode never has the colour of the value 0. When
  the maximum is 0, nothing is scaled: every value gets the default colour.
\<close>

theorem stats_maxCharactersPerGuest:
  "maxCharactersPerGuest (d_stats (processData h raw)) =
     foldl js_max (Finite 0) (map characters_per_guest
        (filter (\<lambda>ep. 0 < num_guests ep) (d_episodes (processData h raw))))
   \<and> maxCharactersPerGuest (d_stats (processData h raw)) =
     Finite (Max (insert 0 ((\<lambda>ep. of_nat (num_characters ep) / of_nat (num_guests ep)) `
        {ep \<in> set (d_episodes (processData h raw)). 0 < num_guests ep})))
   \<and> (\<forall>st ep. num_guests ep = 0 \<longrightarrow>
         maxCharactersPerGuest (episodeStep st ep) = maxCharactersPerGuest st)
   \<and> (\<forall>v. getEpisodeBaseColor v (Finite 0) = Hsl210 (Finite 60))
   \<and> (\<forall>ep \<in> set (d_episodes (processData h raw)). num_guests ep = 0 \<longrightarrow>
         (characters_per_guest ep = PosInf \<or> characters_per_guest ep = NaN)
         \<and> (maxCharactersPerGuest (d_stats (processData h raw)) \<noteq> Finite 0 \<longrightarrow>
              (getEpisodeBaseColor (characters_per_guest ep)
                  (maxCharactersPerGuest (d_stats (processData h raw))) = Hsl210 NegInf
               \<or> getEpisodeBaseColor (characters_per_guest ep)
                  (maxCharactersPerGuest (d_stats (processData h raw))) = Hsl210 NaN)
              \<and> getEpisodeBaseColor (Finite 0)
                  (maxCharactersPerGuest (d_stats (processData h raw))) = Hsl210 (Finite 85)
              \<and> (\<forall>s. colorMode s = ''chars-per-guest'' \<longrightarrow>
                    cellBackground s (d_stats (processData h raw)) ep \<noteq> Hsl210 (Finite 85))))"
proof (intro conjI allI impI ballI)
  let ?M = "maxCharactersPerGuest (d_stats (processData h raw))"
  show "?M = foldl js_max (Finite 0) (map characters_per_guest
        (filter (\<lambda>ep. 0 < num_guests ep) (d_episodes (processData h raw))))"
    by (rule d_stats_processData)
  show "?M = Finite (Max (insert 0 ((\<lambda>ep. of_nat (num_characters ep) / of_nat (num_guests ep)) `
        {ep \<in> set (d_episodes (processData h raw)). 0 < num_guests ep})))"
    by (rule maxCPG_loaded)
  show "maxCharactersPerGuest (episodeStep st ep) = maxCharactersPerGuest st"
    if "num_guests ep = 0" for st ep
    using that by (rule maxCPG_episodeStep_zero)
  show "getEpisodeBaseColor v (Finite 0) = Hsl210 (Finite 60)" for v
    by (simp add: getEpisodeBaseColor_def)
  fix ep
  assume ep: "ep \<in> set (d_episodes (processData h raw))" and z: "num_guests ep = 0"
  have cpg: "characters_per_guest ep = PosInf \<or> characters_per_guest ep = NaN"
    using ep z by (simp add: d_episodes_processData loaded_fields(3) js_div_nat)
  then show "characters_per_guest ep = PosInf \<or> characters_per_guest ep = NaN" .
  assume nz: "?M \<noteq> Finite 0"
  obtain m where m: "?M = Finite m" "0 \<le> m"
    using maxCPG_loaded [of h raw] by (auto intro: Max_ge)
  with nz have pos: "0 < m" by simp
  show inf: "getEpisodeBaseColor (characters_per_guest ep) ?M = Hsl210 NegInf
     \<or> getEpisodeBaseColor (characters_per_guest ep) ?M = Hsl210 NaN"
    using cpg pos by (auto simp: m base_color_inf base_color_nan)
  show "getEpisodeBaseColor (Finite 0) ?M = Hsl210 (Finite 85)"
    using pos by (simp add: m base_color_zero)
  fix s :: app_state
  assume "colorMode s = ''chars-per-guest''"
  then show "cellBackground s (d_stats (processData h raw)) ep \<noteq> Hsl210 (Finite 85)"
    using inf
    by (auto simp: cellBackground_def Let_def ENTITY_HOVER_COLOR_def EPISODE_HIGHLIGHT_COLOR_def
        EPISODE_LIVE_COLOR_def)
qed

theorem stats_maxCharactersPerGuest_witness:
  "length (d_episodes (processData demoHost demoData)) = 4
   \<and> num_guests (d_episodes (processData demoHost demoData) ! 2) = 0
   \<and> characters_per_guest (d_episodes (processData demoHost demoData) ! 2) = PosInf
   \<and> maxCharactersPerGuest (d_stats (processData demoHost demoData)) = Finite 2
   \<and> cellBackground perGuestState (d_stats (processData demoHost demoData))
        (d_episodes (processData demoHost demoData) ! 2) = Hsl210 NegInf
   \<and> cellBackground perGuestState (d_stats (processData demoHost demoData))
        (d_episodes (processData demoHost demoData) ! 2) \<noteq> Hsl210 (Finite 85)"
proof -
  let ?d = "processData demoHost demoData"
  let ?ep = "d_episodes ?d ! 2"
  have len: "length (d_episodes ?d) = 4" by code_simp
  have g: "num_guests ?ep = 0" by code_simp
  have c: "characters_per_guest ?ep = PosInf" by code_simp
  have m: "maxCharactersPerGuest (d_stats ?d) = Finite 2" by code_simp
  have b: "cellBackground perGuestState (d_stats ?d) ?ep = Hsl210 NegInf" by code_simp
  have mem: "?ep \<in> set (d_episodes ?d)" using len by (intro nth_mem) simp
  have mode: "colorMode perGuestState = ''chars-per-guest''" by (simp add: perGuestState_def)
  have nz: "maxCharactersPerGuest (d_stats ?d) \<noteq> Finite 0" by (simp add: m)
  have "cellBackground perGuestState (d_stats ?d) ?ep \<noteq> Hsl210 (Finite 85)"
    using stats_maxCharactersPerGuest [of demoHost demoData] mem g nz mode by blast
  with len g c m b show ?thesis by blast
qed

section \<open>The entity list\<close>

lemma mset_js_insert: "mset (js_insert cmp x xs) = add_mset x (mset xs)"
  by (induction xs) simp_all

lemma mset_js_sort: "mset (js_sort cmp xs) = mset xs"
  by (induction xs) (simp_all add: mset_js_insert)

lemma set_js_insert: "set (js_insert cmp x xs) = insert x (set xs)"
  by (induction xs) auto

lemma sorted_js_insert:
  assumes total: "\<And>a b. cmp a b \<le> 0 \<or> cmp b a \<le> 0"
    and trans: "\<And>a b c. cmp a b \<le> 0 \<Longrightarrow> cmp b c \<le> 0 \<Longrightarrow> cmp a c \<le> 0"
  shows "sorted_wrt (\<lambda>a b. cmp a b \<le> 0) xs \<Longrightarrow> sorted_wrt (\<lambda>a b. cmp a b \<le> 0) (js_insert cmp x xs)"
proof (induction xs)
  case Nil
  show ?case by simp
next
  case (Cons y ys)
  show ?case
  proof (cases "cmp x y \<le> 0")
    case True
    then have "\<forall>z\<in>set ys. cmp x z \<le> 0" using Cons.prems trans by auto
    with True Cons.prems show ?thesis by simp
  next
    case False
    then have "cmp y x \<le> 0" using total [of x y] by simp
    with False Cons show ?thesis by (simp add: set_js_insert)
  qed
qed

lemma sorted_js_sort:
  assumes total: "\<And>a b. cmp a b \<le> 0 \<or> cmp b a \<le> 0"
    and trans: "\<And>a b c. cmp a b \<le> 0 \<Longrightarrow> cmp b c \<le> 0 \<Longrightarrow> cmp a c \<le> 0"
  shows "sorted_wrt (\<lambda>a b. cmp a b \<le> 0) (js_sort cmp xs)"
proof (induction xs)
  case Nil
  show ?case by simp
next
  case (Cons x xs)
  then show ?case using sorted_js_insert [of cmp, OF total trans] by simp
qed

lemma sorted_js_sort_key:
  "sorted_wrt (\<lambda>a b. f a \<le> f b) (js_sort (\<lambda>a b. f a - f b) xs)" for f :: "'a \<Rightarrow> int"
  by (rule sorted_js_sort [of "\<lambda>a b. f a - f b", simplified]) auto

lemma take_length_iff: "(take (length q) xs = q) = (\<exists>post. xs = q @ post)"
proof
  assume "take (length q) xs = q"
  then have "xs = q @ drop (length q) xs" by (metis append_take_drop_id)
  then show "\<exists>post. xs = q @ post" ..
next
  assume "\<exists>post. xs = q @ post"
  then show "take (length q) xs = q" by auto
qed

lemma js_includes_iff: "js_includes s q = (\<exists>pre post. s = pre @ q @ post)"
proof (induction s)
  case Nil
  show ?case by auto
next
  case (Cons ch s)
  show ?case
  proof
    assume "js_includes (ch # s) q"
    then consider "\<exists>post. ch # s = q @ post" | "\<exists>pre post. s = pre @ q @ post"
      using Cons.IH by (auto simp: take_length_iff simp del: take_Suc_Cons)
    then show "\<exists>pre post. ch # s = pre @ q @ post"
    proof cases
      case 1
      then obtain post where "ch # s = [] @ q @ post" by auto
      then show ?thesis by blast
    next
      case 2
      then obtain pre post where "ch # s = (ch # pre) @ q @ post" by auto
      then show ?thesis by blast
    qed
  next
    assume "\<exists>pre post. ch # s = pre @ q @ post"
    then obtain pre post where p: "ch # s = pre @ q @ post" by blast
    show "js_includes (ch # s) q"
    proof (cases pre)
      case Nil
      with p have "\<exists>post. ch # s = q @ post" by auto
      then have "take (length q) (ch # s) = q" by (simp only: take_length_iff)
      then show ?thesis by (simp del: take_Suc_Cons)
    next
      case (Cons a pre')
      with p have "s = pre' @ q @ post" by simp
      then have "js_includes s q" unfolding Cons.IH by blast
      then show ?thesis by simp
    qed
  qed
qed

lemma sortedEntities_cases:
  "sortedEntities h d s =
     (if sortBy s = ''appearances''
        then js_sort (\<lambda>a b. (- int (length (ent_episodes a))) - (- int (length (ent_episodes b))))
               (filteredEntities h d s)
      else if sortBy s = ''first''
        then js_sort (\<lambda>a b. int (firstIdx a) - int (firstIdx b)) (filteredEntities h d s)
      else if sortBy s = ''last''
        then js_sort (\<lambda>a b. (- int (lastIdx a)) - (- int (lastIdx b))) (filteredEntities h d s)
      else if sortBy s = ''name''
        then js_sort (\<lambda>a b. localeCompare h (ent_name a) (ent_name b)) (filteredEntities h d s)
      else filteredEntities h d s)"
proof -
  have f: "(if searchQuery s \<noteq> []
            then filter (\<lambda>e. js_includes (toLowerCase h (ent_name e)) (toLowerCase h (searchQuery s))) xs
            else xs) = filter (queryMatches h (searchQuery s)) xs" for xs
  proof (cases "searchQuery s = []")
    case True
    then show ?thesis by (simp add: queryMatches_def)
  next
    case False
    then have "queryMatches h (searchQuery s) =
        (\<lambda>e. js_includes (toLowerCase h (ent_name e)) (toLowerCase h (searchQuery s)))"
      by (intro ext) (simp add: queryMatches_def js_includes_iff)
    with False show ?thesis by simp
  qed
  have a: "(\<lambda>a b :: entity. int (length (ent_episodes b)) - int (length (ent_episodes a))) =
           (\<lambda>a b. (- int (length (ent_episodes a))) - (- int (length (ent_episodes b))))"
    by (intro ext) simp
  have l: "(\<lambda>a b :: entity. int (lastIdx b) - int (lastIdx a)) =
           (\<lambda>a b. (- int (lastIdx a)) - (- int (lastIdx b)))"
    by (intro ext) simp
  show ?thesis
    unfolding sortedEntities_def Let_def f filteredEntities_def a l by simp
qed

lemma mset_sortedEntities: "mset (sortedEntities h d s) = mset (filteredEntities h d s)"
  by (simp add: sortedEntities_cases mset_js_sort)

lemma set_sortedEntities:
  "set (sortedEntities h d s) \<subseteq> snd ` set (if entityType s = Guest then guestMap d else characterMap d)"
proof -
  have "set (sortedEntities h d s) = set (filteredEntities h d s)"
    using mset_sortedEntities [of h d s] by (rule mset_eq_setD)
  then show ?thesis by (auto simp: filteredEntities_def)
qed

lemma demo_localeCompare: "(localeCompare demoHost a b \<le> 0) = (a \<le> b)"
proof -
  have "localeCompare demoHost a b = (if a < b then - 1 else if a = b then 0 else 1)"
    by (simp add: demoHost_def)
  then show ?thesis by (simp add: le_less)
qed

lemma scenario_most:
  "map ent_name (sortedEntities demoHost (processData demoHost scenarioData) initialState) = [''A'', ''B'']"
  by code_simp

lemma scenario_search:
  "map ent_name (sortedEntities demoHost (processData demoHost scenarioData)
      (initialState \<lparr> searchQuery := ''b'' \<rparr>)) = [''B'']"
  by code_simp

lemma demo_last:
  "map ent_name (sortedEntities demoHost (processData demoHost demoData)
      (initialState \<lparr> sortBy := ''last'' \<rparr>)) = [''A'', ''C'', ''B'']"
  by code_simp

lemma demo_name:
  "map ent_name (sortedEntities demoHost (processData demoHost demoData)
      (initialState \<lparr> sortBy := ''name'', entityType := Character \<rparr>)) = [''X'', ''Y'']"
  by code_simp

lemma sortedEntities_appearances:
  "sortBy s = ''appearances'' \<Longrightarrow>
   sortedEntities h d s =
     js_sort (\<lambda>a b. (- int (length (ent_episodes a))) - (- int (length (ent_episodes b))))
       (filteredEntities h d s)"
  by (simp add: sortedEntities_cases)

lemma sortedEntities_first:
  "sortBy s = ''first'' \<Longrightarrow>
   sortedEntities h d s = js_sort (\<lambda>a b. int (firstIdx a) - int (firstIdx b)) (filteredEntities h d s)"
  by (simp add: sortedEntities_cases)

lemma sortedEntities_last:
  "sortBy s = ''last'' \<Longrightarrow>
   sortedEntities h d s =
     js_sort (\<lambda>a b. (- int (lastIdx a)) - (- int (lastIdx b))) (filteredEntities h d s)"
  by (simp add: sortedEntities_cases)

lemma sortedEntities_name:
  "sortBy s = ''name'' \<Longrightarrow>
   sortedEntities h d s =
     js_sort (\<lambda>a b. localeCompare h (ent_name a) (ent_name b)) (filteredEntities h d s)"
  by (simp add: sortedEntities_cases)

lemma sorted_appearances:
  assumes "sortBy s = ''appearances''"
  shows "sorted_wrt (\<lambda>a b. length (ent_episodes b) \<le> length (ent_episodes a)) (sortedEntities h d s)"
  unfolding sortedEntities_appearances [OF assms]
  using sorted_js_sort_key [of "\<lambda>a. - int (length (ent_episodes a))" "filteredEntities h d s"]
  by simp

lemma sorted_last:
  assumes "sortBy s = ''last''"
  shows "sorted_wrt (\<lambda>a b. lastIdx b \<le> lastIdx a) (sortedEntities h d s)"
  unfolding sortedEntities_last [OF assms]
  using sorted_js_sort_key [of "\<lambda>a. - int (lastIdx a)" "filteredEntities h d s"]
  by simp

lemma sorted_first:
  assumes "sortBy s = ''first''"
  shows "sorted_wrt (\<lambda>a b. firstIdx a \<le> firstIdx b) (sortedEntities h d s)"
  unfolding sortedEntities_first [OF assms]
  using sorted_js_sort_key [of "\<lambda>a. int (firstIdx a)" "filteredEntities h d s"]
  by simp

lemma sorted_name:
  assumes "sortBy s = ''name''"
    and total: "\<forall>a b. localeCompare h a b \<le> 0 \<or> localeCompare h b a \<le> 0"
    and trans: "\<forall>a b c. localeCompare h a b \<le> 0 \<and> localeCompare h b c \<le> 0 \<longrightarrow> localeCompare h a c \<le> 0"
  shows "sorted_wrt (\<lambda>a b. localeCompare h (ent_name a) (ent_name b) \<le> 0) (sortedEntities h d s)"
  unfolding sortedEntities_name [OF assms(1)]
proof (rule sorted_js_sort)
  show "localeCompare h (ent_name a) (ent_name b) \<le> 0 \<or> localeCompare h (ent_name b) (ent_name a) \<le> 0"
    for a b :: entity
    using total by blast
  show "localeCompare h (ent_name a) (ent_name c) \<le> 0"
    if "localeCompare h (ent_name a) (ent_name b) \<le> 0" "localeCompare h (ent_name b) (ent_name c) \<le> 0"
    for a b c :: entity
    using trans that by blast
qed

text \<open>
  Claim C7. The entity list holds exactly the entities of the selected kind that the search
  text keeps (all of them when it is empty, else those whose lower-case name contains the
  lower-case search text). It is ordered by the sort key: \<open>appearances\<close> descending by the
  number of episodes, \<open>last\<close> descending by \<open>lastIdx\<close>, \<open>first\<close> ascending by \<open>firstIdx\<close>, and
  \<open>name\<close> ascending by \<open>localeCompare\<close>, provided \<open>localeCompare\<close> is a consistent
  comparator (total and transitive). With guest A in episodes 0 and 2 and guest B in
  episode 1, the sort by appearances gives A before B, and the search text \<open>b\<close> gives B only.
\<close>

theorem entity_query:
  "mset (sortedEntities h d s) = mset (filteredEntities h d s)
   \<and> (sortBy s = ''appearances'' \<longrightarrow>
        sorted_wrt (\<lambda>a b. length (ent_episodes b) \<le> length (ent_episodes a)) (sortedEntities h d s))
   \<and> (sortBy s = ''last'' \<longrightarrow>
        sorted_wrt (\<lambda>a b. lastIdx b \<le> lastIdx a) (sortedEntities h d s))
   \<and> (sortBy s = ''first'' \<longrightarrow>
        sorted_wrt (\<lambda>a b. firstIdx a \<le> firstIdx b) (sortedEntities h d s))
   \<and> (sortBy s = ''name'' \<and>
        (\<forall>a b. localeCompare h a b \<le> 0 \<or> localeCompare h b a \<le> 0) \<and>
        (\<forall>a b c. localeCompare h a b \<le> 0 \<and> localeCompare h b c \<le> 0 \<longrightarrow> localeCompare h a c \<le> 0) \<longrightarrow>
        sorted_wrt (\<lambda>a b. localeCompare h (ent_name a) (ent_name b) \<le> 0) (sortedEntities h d s))
   \<and> map ent_name (sortedEntities demoHost (processData demoHost scenarioData) initialState) =
        [''A'', ''B'']
   \<and> map ent_name (sortedEntities demoHost (processData demoHost scenarioData)
        (initialState \<lparr> searchQuery := ''b'' \<rparr>)) = [''B'']"
proof (intro conjI impI)
  show "mset (sortedEntities h d s) = mset (filteredEntities h d s)"
    by (rule mset_sortedEntities)
  show "sorted_wrt (\<lambda>a b. length (ent_episodes b) \<le> length (ent_episodes a)) (sortedEntities h d s)"
    if "sortBy s = ''appearances''"
    using that by (rule sorted_appearances)
  show "sorted_wrt (\<lambda>a b. lastIdx b \<le> lastIdx a) (sortedEntities h d s)"
    if "sortBy s = ''last''"
    using that by (rule sorted_last)
  show "sorted_wrt (\<lambda>a b. firstIdx a \<le> firstIdx b) (sortedEntities h d s)"
    if "sortBy s = ''first''"
    using that by (rule sorted_first)
  show "sorted_wrt (\<lambda>a b. localeCompare h (ent_name a) (ent_name b) \<le> 0) (sortedEntities h d s)"
    if c: "sortBy s = ''name'' \<and>
        (\<forall>a b. localeCompare h a b \<le> 0 \<or> localeCompare h b a \<le> 0) \<and>
        (\<forall>a b c. localeCompare h a b \<le> 0 \<and> localeCompare h b c \<le> 0 \<longrightarrow> localeCompare h a c \<le> 0)"
    using c [THEN conjunct1] c [THEN conjunct2, THEN conjunct1] c [THEN conjunct2, THEN conjunct2]
    by (rule sorted_name)
  show "map ent_name (sortedEntities demoHost (processData demoHost scenarioData) initialState) =
        [''A'', ''B'']"
    by (rule scenario_most)
  show "map ent_name (sortedEntities demoHost (processData demoHost scenarioData)
        (initialState \<lparr> searchQuery := ''b'' \<rparr>)) = [''B'']"
    by (rule scenario_search)
qed

theorem entity_query_witness:
  "map ent_name (sortedEntities demoHost (processData demoHost demoData)
      (initialState \<lparr> sortBy := ''last'' \<rparr>)) = [''A'', ''C'', ''B'']
   \<and> sorted_wrt (\<lambda>a b. lastIdx b \<le> lastIdx a)
       (sortedEntities demoHost (processData demoHost demoData) (initialState \<lparr> sortBy := ''last'' \<rparr>))
   \<and> sorted_wrt (\<lambda>a b. length (ent_episodes b) \<le> length (ent_episodes a))
       (sortedEntities demoHost (processData demoHost demoData) initialState)
   \<and> sorted_wrt (\<lambda>a b. firstIdx a \<le> firstIdx b)
       (sortedEntities demoHost (processData demoHost demoData) (initialState \<lparr> sortBy := ''first'' \<rparr>))
   \<and> map ent_name (sortedEntities demoHost (processData demoHost demoData)
      (initialState \<lparr> sortBy := ''name'', entityType := Character \<rparr>)) = [''X'', ''Y'']
   \<and> sorted_wrt (\<lambda>a b. localeCompare demoHost (ent_name a) (ent_name b) \<le> 0)
       (sortedEntities demoHost (processData demoHost demoData)
          (initialState \<lparr> sortBy := ''name'', entityType := Character \<rparr>))"
proof -
  let ?d = "processData demoHost demoData"
  have tot: "\<forall>a b. localeCompare demoHost a b \<le> 0 \<or> localeCompare demoHost b a \<le> 0"
    unfolding demo_localeCompare by (intro allI) (rule linear)
  have tr: "\<forall>a b c. localeCompare demoHost a b \<le> 0 \<and> localeCompare demoHost b c \<le> 0 \<longrightarrow>
      localeCompare demoHost a c \<le> 0"
    unfolding demo_localeCompare by (intro allI impI, elim conjE) (rule order_trans)
  have 1: "sorted_wrt (\<lambda>a b. lastIdx b \<le> lastIdx a)
       (sortedEntities demoHost ?d (initialState \<lparr> sortBy := ''last'' \<rparr>))"
    by (rule entity_query [THEN conjunct2, THEN conjunct2, THEN conjunct1, THEN mp]) simp
  have 2: "sorted_wrt (\<lambda>a b. length (ent_episodes b) \<le> length (ent_episodes a))
       (sortedEntities demoHost ?d initialState)"
    by (rule entity_query [THEN conjunct2, THEN conjunct1, THEN mp]) (simp add: initialState_def)
  have 3: "sorted_wrt (\<lambda>a b. firstIdx a \<le> firstIdx b)
       (sortedEntities demoHost ?d (initialState \<lparr> sortBy := ''first'' \<rparr>))"
    by (rule entity_query [THEN conjunct2, THEN conjunct2, THEN conjunct2, THEN conjunct1, THEN mp]) simp
  have n: "sortBy (initialState \<lparr> sortBy := ''name'', entityType := Character \<rparr>) = ''name''"
    by simp
  have 4: "sorted_wrt (\<lambda>a b. localeCompare demoHost (ent_name a) (ent_name b) \<le> 0)
       (sortedEntities demoHost ?d (initialState \<lparr> sortBy := ''name'', entityType := Character \<rparr>))"
    by (rule entity_query [THEN conjunct2, THEN conjunct2, THEN conjunct2, THEN conjunct2,
          THEN conjunct1, THEN mp]) (intro conjI n tot tr)
  from demo_last 1 2 3 demo_name 4 show ?thesis by (intro conjI)
qed

section \<open>The debounced hover\<close>

lemma hover_first:
  assumes "timers w = []" and "0 < nextHandle w" and "now w \<le> t"
  shows "pendingInv t k (hoverLog w) (app w) (hoverAt w (t, k))"
  using assms
  by (auto simp: pendingInv_def hoverAt_def advance_def setHoveredEpisodeDebounced_def
      setTimeout_def clearTimeout_def Let_def split: option.splits)

lemma hover_next:
  assumes "pendingInv t k lg a w" and "t \<le> t'" and "t' < t + 50"
  shows "pendingInv t' k' lg a (hoverAt w (t', k'))"
proof -
  from assms(1) obtain handle where h: "handle \<noteq> 0" "handle < nextHandle w"
      "timers w = [\<lparr> tm_handle = handle, tm_due = t + 50, tm_idx = k \<rparr>]"
      "hoverTimeoutRef w = Some handle" "now w = t" "hoverLog w = lg" "app w = a"
    unfolding pendingInv_def by blast
  have adv: "advance t' w = w \<lparr> now := t' \<rparr>"
    using h assms(2,3) by (simp add: advance_def max_def)
  have "hoverAt w (t', k') = setHoveredEpisodeDebounced k' (w \<lparr> now := t' \<rparr>)"
    by (simp add: hoverAt_def adv)
  then show ?thesis
    using h by (simp add: pendingInv_def setHoveredEpisodeDebounced_def setTimeout_def clearTimeout_def)
qed

lemma hover_burst:
  "pendingInv t k lg a w \<Longrightarrow> burst ((t, k) # evs) \<Longrightarrow>
   pendingInv (fst (last ((t, k) # evs))) (snd (last ((t, k) # evs))) lg a (foldl hoverAt w evs)"
proof (induction evs arbitrary: t k w)
  case Nil
  then show ?case by simp
next
  case (Cons e evs)
  obtain t' k' where e: "e = (t', k')" by (cases e)
  have "pendingInv t' k' lg a (hoverAt w (t', k'))"
    using Cons.prems by (intro hover_next [of t k]) (simp_all add: e)
  moreover have "burst ((t', k') # evs)" using Cons.prems by (simp add: e)
  ultimately have "pendingInv (fst (last ((t', k') # evs))) (snd (last ((t', k') # evs))) lg a
      (foldl hoverAt (hoverAt w (t', k')) evs)"
    by (rule Cons.IH)
  then show ?case by (simp add: e)
qed

lemma advance_fires:
  assumes "pendingInv t k lg a w" and "t + 50 \<le> T"
  shows "hoverLog (advance T w) = lg @ [(t + 50, Some k)]
     \<and> app (advance T w) = a \<lparr> hoveredEpisode := Some k \<rparr>
     \<and> timers (advance T w) = [] \<and> now (advance T w) = T"
proof -
  from assms(1) obtain handle where h:
      "timers w = [\<lparr> tm_handle = handle, tm_due = t + 50, tm_idx = k \<rparr>]"
      "now w = t" "hoverLog w = lg" "app w = a"
    unfolding pendingInv_def by blast
  show ?thesis
    using h assms(2) by (simp add: advance_def fire_def setHoveredEpisode_def max_def)
qed

lemma advance_quiet:
  assumes "pendingInv t k lg a w" and "T < t + 50"
  shows "hoverLog (advance T w) = lg \<and> app (advance T w) = a"
proof -
  from assms(1) obtain handle where h:
      "timers w = [\<lparr> tm_handle = handle, tm_due = t + 50, tm_idx = k \<rparr>]"
      "now w = t" "hoverLog w = lg" "app w = a"
    unfolding pendingInv_def by blast
  show ?thesis
    using h assms(2) by (simp add: advance_def)
qed

text \<open>
  Claim C5. Take a non-empty burst of hover events, each less than 50 time units after the
  one before it, starting with no timer queued. Every new hover cancels the pending timer
  and queues its own; so, once 50 time units have passed after the last event, exactly one
  call of \<open>setHoveredEpisode\<close> has been added to the log, at the time of the last event plus
  50 and with the cell of the last event, and before that time none. Hovers at the times
  0, 10, 20 and 30 give one update, at time 80, with the cell of the hover at 30.
  After the last event of the burst only its own timer is queued.
\<close>

theorem debounce_single_update:
  assumes "evs \<noteq> []" and "burst evs"
    and "timers w = []" and "0 < nextHandle w" and "now w \<le> fst (hd evs)"
  shows "map (\<lambda>x. (tm_due x, tm_idx x)) (timers (foldl hoverAt w evs)) =
           [(fst (last evs) + 50, snd (last evs))]
       \<and> (fst (last evs) + 50 \<le> T \<longrightarrow>
           hoverLog (runHovers evs T w) = hoverLog w @ [(fst (last evs) + 50, Some (snd (last evs)))]
           \<and> hoveredEpisode (app (runHovers evs T w)) = Some (snd (last evs)))
       \<and> (T < fst (last evs) + 50 \<longrightarrow> hoverLog (runHovers evs T w) = hoverLog w)
       \<and> (\<forall>a b c d. 80 \<le> T \<longrightarrow>
             hoverLog (runHovers [(0, a), (10, b), (20, c), (30, d)] T initialWorld) = [(80, Some d)])"
proof -
  from assms(1) obtain t k rest where evs: "evs = (t, k) # rest" by (cases evs) auto
  have first: "pendingInv t k (hoverLog w) (app w) (hoverAt w (t, k))"
    using assms(3,4,5) by (intro hover_first) (simp_all add: evs)
  have "pendingInv (fst (last ((t, k) # rest))) (snd (last ((t, k) # rest))) (hoverLog w) (app w)
      (foldl hoverAt (hoverAt w (t, k)) rest)"
    using first assms(2) unfolding evs by (rule hover_burst)
  then have inv: "pendingInv (fst (last evs)) (snd (last evs)) (hoverLog w) (app w) (foldl hoverAt w evs)"
    by (simp add: evs)
  have general: "(fst (last evs) + 50 \<le> T \<longrightarrow>
           hoverLog (runHovers evs T w) = hoverLog w @ [(fst (last evs) + 50, Some (snd (last evs)))]
           \<and> hoveredEpisode (app (runHovers evs T w)) = Some (snd (last evs)))
       \<and> (T < fst (last evs) + 50 \<longrightarrow> hoverLog (runHovers evs T w) = hoverLog w)"
    unfolding runHovers_def
    using advance_fires [OF inv, of T] advance_quiet [OF inv, of T] by simp
  have four: "hoverLog (runHovers [(0, a), (10, b), (20, c), (30, d)] T initialWorld) = [(80, Some d)]"
    if T: "80 \<le> T" for a b c d
  proof -
    have "pendingInv 0 a [] initialState (hoverAt initialWorld (0, a))"
      using hover_first [of initialWorld 0 a] by (simp add: initialWorld_def)
    then have "pendingInv (fst (last [(0::nat, a), (10, b), (20, c), (30, d)]))
        (snd (last [(0::nat, a), (10, b), (20, c), (30, d)])) [] initialState
        (foldl hoverAt (hoverAt initialWorld (0, a)) [(10, b), (20, c), (30, d)])"
      by (rule hover_burst) simp
    then have "pendingInv 30 d [] initialState
        (foldl hoverAt initialWorld [(0, a), (10, b), (20, c), (30, d)])"
      by simp
    from advance_fires [OF this, of T] T show ?thesis by (simp add: runHovers_def)
  qed
  have pending: "map (\<lambda>x. (tm_due x, tm_idx x)) (timers (foldl hoverAt w evs)) =
      [(fst (last evs) + 50, snd (last evs))]"
    using inv unfolding pendingInv_def by auto
  from pending general four show ?thesis by blast
qed

theorem debounce_single_update_witness:
  "[(0, 7), (10, 8), (20, 9), (30, 4)] \<noteq> [] \<and> burst [(0, 7), (10, 8), (20, 9), (30, 4)]
   \<and> timers initialWorld = [] \<and> 0 < nextHandle initialWorld \<and> now initialWorld \<le> 0
   \<and> hoverLog (runHovers [(0, 7), (10, 8), (20, 9), (30, 4)] 200 initialWorld) = [(80, Some 4)]
   \<and> hoveredEpisode (app (runHovers [(0, 7), (10, 8), (20, 9), (30, 4)] 200 initialWorld)) = Some 4
   \<and> hoverLog (runHovers [(0, 7), (10, 8), (20, 9), (30, 4)] 79 initialWorld) = []
   \<and> map (\<lambda>x. (tm_due x, tm_idx x))
        (timers (foldl hoverAt initialWorld [(0, 7), (10, 8), (20, 9), (30, 4)])) = [(80, 4)]"
proof -
  let ?evs = "[(0, 7), (10, 8), (20, 9), (30, 4)] :: (nat \<times> nat) list"
  have a: "?evs \<noteq> []" by simp
  have b: "burst ?evs" by simp
  have c: "timers initialWorld = []" "0 < nextHandle initialWorld" "now initialWorld \<le> fst (hd ?evs)"
    by (simp_all add: initialWorld_def)
  have l: "hoverLog initialWorld = []" by (simp add: initialWorld_def)
  show ?thesis
    using debounce_single_update [OF a b c, of 200] debounce_single_update [OF a b c, of 79] a b c l
    by simp
qed

section \<open>Selecting an entity\<close>

text \<open>
  Claim C6, as stated, fails on the buttons of the episode summary: with guest A selected,
  the click on the button of guest A in the summary leaves A selected.
\<close>

theorem select_entity_counterexample:
  "selectedEntity selectedA = Some ''A'' \<and> entityType selectedA = Guest
   \<and> selectedEntity (clickSummaryGuest ''A'' selectedA) = Some ''A''
   \<and> entityType (clickSummaryGuest ''A'' selectedA) = Guest"
  by (simp add: selectedA_def initialState_def clickSummaryGuest_def handleBackgroundClick_def)

text \<open>
  Claim C6, amended. The click on an item of the entity list selects that entity, or clears
  the selection when its name is the selected one (toggle), and leaves the kind as it is;
  the list holds entities of the current kind only. The click on a guest or character button
  of the episode summary, or on a related entity of the detail panel, selects that entity
  and sets the kind to the entity's kind, without toggle.
\<close>

theorem select_entity_click:
  "selectedEntity (clickEntityListItem nm s) = (if selectedEntity s = Some nm then None else Some nm)
   \<and> entityType (clickEntityListItem nm s) = entityType s
   \<and> set (sortedEntities h d s) \<subseteq>
       snd ` set (if entityType s = Guest then guestMap d else characterMap d)
   \<and> selectedEntity (clickSummaryGuest nm s) = Some nm
   \<and> entityType (clickSummaryGuest nm s) = Guest
   \<and> selectedEntity (clickSummaryCharacter nm s) = Some nm
   \<and> entityType (clickSummaryCharacter nm s) = Character
   \<and> selectedEntity (clickRelated (nm, kind) s) = Some nm
   \<and> entityType (clickRelated (nm, kind) s) = kind"
  by (simp add: clickEntityListItem_def clickSummaryGuest_def clickSummaryCharacter_def
      clickRelated_def handleBackgroundClick_def set_sortedEntities)

theorem select_entity_click_witness:
  "selectedEntity (clickEntityListItem ''A'' selectedA) = None
   \<and> selectedEntity (clickEntityListItem ''B'' selectedA) = Some ''B''
   \<and> entityType (clickEntityListItem ''B'' selectedA) = Guest
   \<and> selectedEntity (clickSummaryCharacter ''X'' selectedA) = Some ''X''
   \<and> entityType (clickSummaryCharacter ''X'' selectedA) = Character"
  using select_entity_click [of "''A''" selectedA demoHost "processData demoHost demoData" Guest]
    select_entity_click [of "''B''" selectedA demoHost "processData demoHost demoData" Guest]
    select_entity_click [of "''X''" selectedA demoHost "processData demoHost demoData" Guest]
  by (simp add: selectedA_def initialState_def)

section \<open>Sizing the cells\<close>

text \<open>
  Claim C9. When the computed size, the container width minus the fixed overhead
  (32 + 40 + 30) minus one gap of 1 between neighbouring cells, divided by the number of
  cells, is below 4, \<open>setCellSize\<close> is not called and the state, with its cell size, stays as
  it was, whatever the cell size before; the model has no error result.
\<close>

theorem cell_size_floor:
  assumes "(of_int containerWidth - 102 - (of_nat n - 1) * 1) / of_nat n < (4::rat)"
  shows "cellSizeEffect closureCellSize (Some containerWidth) n s = s
     \<and> cellSize (cellSizeEffect closureCellSize (Some containerWidth) n s) = cellSize s
     \<and> (0 < n \<longrightarrow> updateCellSize closureCellSize containerWidth n = None)"
proof -
  have "updateCellSize closureCellSize containerWidth n = None"
    using assms by (simp add: updateCellSize_def Let_def algebra_simps)
  then show ?thesis by (simp add: cellSizeEffect_def)
qed

theorem cell_size_floor_witness:
  "(of_int 400 - 102 - (of_nat 100 - 1) * 1) / of_nat 100 < (4::rat)
   \<and> cellSizeEffect 11 (Some 400) 100 initialState = initialState
   \<and> cellSize (cellSizeEffect 11 (Some 400) 100 initialState) = 11
   \<and> updateCellSize 11 400 100 = None
   \<and> updateCellSize 11 1200 100 = Some (999 / 100)"
proof -
  have h: "(of_int 400 - 102 - (of_nat 100 - 1) * 1) / of_nat 100 < (4::rat)" by simp
  have u: "updateCellSize 11 1200 100 = Some (999 / 100)"
    by (simp add: updateCellSize_def Let_def)
  have c: "cellSize initialState = 11" by (simp add: initialState_def)
  show ?thesis
    using cell_size_floor [OF h, of 11 initialState] h u c by simp
qed

end
